theory Spec2Isabelle
  imports Main "HOL-Library.Word"
begin

section \<open>Python values, exceptions and the interpreter's primitives\<close>

text \<open>
  The embedding follows \<^verbatim>\<open>src/zipper/core.py\<close>. A Python \<^verbatim>\<open>str\<close> is a sequence of code
  points, a \<^verbatim>\<open>bytes\<close> object a sequence of octets. Exceptions are values of \<open>exn\<close>; the
  two \<^verbatim>\<open>RuntimeError\<close>s of the source differ in their message and are kept apart:
  \<open>RuntimeError_not_opened\<close> is the decorator's "Archive not opened", and
  \<open>RuntimeError_write_mode\<close> is "Archive must be opened in write mode" (the specification's
  ModeViolation). \<open>FileNotFoundError\<close> is NotFound, \<open>KeyError\<close> is NotFoundInArchive and
  \<open>TypeError\<close> is Serialization. \<open>struct_error\<close> is \<^verbatim>\<open>struct.error\<close>.
\<close>

type_synonym pystr = "nat list"
type_synonym bytes = "8 word list"

datatype exn =
    ValueError
  | RuntimeError_not_opened
  | RuntimeError_write_mode
  | FileNotFoundError
  | IsADirectoryError
  | IndexError
  | KeyError
  | TypeError
  | JSONDecodeError
  | UnicodeDecodeError
  | UnicodeEncodeError
  | RecursionError
  | struct_error

text \<open>
  Metadata values are dynamically typed trees. \<open>PObject t\<close> is an object of a class that
  \<^verbatim>\<open>json\<close> does not know, with the truth value \<open>t\<close> that \<^verbatim>\<open>bool()\<close> gives it: \<^verbatim>\<open>object()\<close>
  is \<open>PObject True\<close>, \<^verbatim>\<open>set()\<close> is \<open>PObject False\<close>. A dictionary is an association list in
  insertion order, with strings for keys.

  What the interpreter contributes is collected in the record \<open>interp\<close>. Floating point
  numbers are an abstract type \<open>'f\<close> with the three primitives the code reaches (the
  encoder's \<^verbatim>\<open>floatstr\<close>, the decoder's \<^verbatim>\<open>parse_float\<close>, and \<^verbatim>\<open>float.__bool__\<close>).
  \<open>recursion_budget\<close> is the number of nested calls that the recursion limit still allows
  when the codec of the handle has called \<^verbatim>\<open>json.dumps\<close> or \<^verbatim>\<open>json.loads\<close> and the C encoder
  or scanner starts (both are reached through the same number of frames; 992 when a method
  of the handle is called at module level under the default limit of 1000). \<open>max_str_digits\<close> is
  \<^verbatim>\<open>sys.get_int_max_str_digits()\<close>, 4300 by default, 0 for no limit.
\<close>

datatype 'f pyval =
    PNone
  | PBool bool
  | PInt int
  | PFloat 'f
  | PStr pystr
  | PList "'f pyval list"
  | PDict "(pystr \<times> 'f pyval) list"
  | PObject bool

record 'f interp =
  floatstr :: "'f \<Rightarrow> pystr"
  parse_float :: "pystr \<Rightarrow> 'f"
  float_bool :: "'f \<Rightarrow> bool"
  recursion_budget :: nat
  max_str_digits :: nat

definition digits_allowed :: "'f interp \<Rightarrow> nat \<Rightarrow> bool" where
  "digits_allowed F n \<longleftrightarrow> max_str_digits F = 0 \<or> n \<le> max_str_digits F"

definition ascii :: "string \<Rightarrow> pystr" where
  "ascii s = map of_char s"

definition bytes_literal :: "string \<Rightarrow> bytes" where
  "bytes_literal s = map of_char s"

text \<open>Truth value testing, as \<^verbatim>\<open>if metadata:\<close> and \<^verbatim>\<open>arcname or ...\<close> perform it.\<close>

fun py_bool :: "'f interp \<Rightarrow> 'f pyval \<Rightarrow> bool" where
  "py_bool F PNone = False"
| "py_bool F (PBool b) = b"
| "py_bool F (PInt i) = (i \<noteq> 0)"
| "py_bool F (PFloat x) = float_bool F x"
| "py_bool F (PStr s) = (s \<noteq> [])"
| "py_bool F (PList xs) = (xs \<noteq> [])"
| "py_bool F (PDict kvs) = (kvs \<noteq> [])"
| "py_bool F (PObject t) = t"

section \<open>UTF-8: \<^verbatim>\<open>str.encode('utf-8')\<close> and \<^verbatim>\<open>bytes.decode('utf-8', errors=...)\<close>\<close>

definition utf8_encode_char :: "nat \<Rightarrow> nat list option" where
  "utf8_encode_char c =
     (if c < 0x80 then Some [c]
      else if c < 0x800 then Some [0xC0 + c div 64, 0x80 + c mod 64]
      else if c < 0x10000 then
        (if 0xD800 \<le> c \<and> c \<le> 0xDFFF then None
         else Some [0xE0 + c div 4096, 0x80 + c div 64 mod 64, 0x80 + c mod 64])
      else if c < 0x110000 then
        Some [0xF0 + c div 262144, 0x80 + c div 4096 mod 64, 0x80 + c div 64 mod 64,
              0x80 + c mod 64]
      else None)"

fun utf8_encode :: "pystr \<Rightarrow> exn + bytes" where
  "utf8_encode [] = Inr []"
| "utf8_encode (c # cs) =
     (case utf8_encode_char c of
        None \<Rightarrow> Inl UnicodeEncodeError
      | Some bs \<Rightarrow>
          (case utf8_encode cs of
             Inl e \<Rightarrow> Inl e
           | Inr r \<Rightarrow> Inr (map of_nat bs @ r)))"

definition is_cont :: "nat \<Rightarrow> bool" where
  "is_cont b \<longleftrightarrow> 0x80 \<le> b \<and> b < 0xC0"

text \<open>
  One step of the decoder on the lead byte \<open>ch\<close> and the bytes after it: a code point and
  the number of bytes it took, a malformed sequence and the number of bytes the error
  covers, or an incomplete sequence at the end of the input (the error covers the rest).
\<close>

datatype utf8_step = Decoded nat nat | Invalid nat | Truncated

definition utf8_decode_one :: "nat \<Rightarrow> nat list \<Rightarrow> utf8_step" where
  "utf8_decode_one ch s =
     (if ch < 0x80 then Decoded ch 1
      else if ch < 0xE0 then
        (if ch < 0xC2 then Invalid 1
         else case s of
             [] \<Rightarrow> Truncated
           | ch2 # _ \<Rightarrow>
               if \<not> is_cont ch2 then Invalid 1
               else Decoded ((ch - 0xC0) * 64 + (ch2 - 0x80)) 2)
      else if ch < 0xF0 then
        (case s of
           [] \<Rightarrow> Truncated
         | ch2 # s2 \<Rightarrow>
             if \<not> is_cont ch2 \<or> (if ch2 < 0xA0 then ch = 0xE0 else ch = 0xED) then Invalid 1
             else (case s2 of
                 [] \<Rightarrow> Truncated
               | ch3 # _ \<Rightarrow>
                   if \<not> is_cont ch3 then Invalid 2
                   else Decoded ((ch - 0xE0) * 4096 + (ch2 - 0x80) * 64 + (ch3 - 0x80)) 3))
      else if ch < 0xF5 then
        (case s of
           [] \<Rightarrow> Truncated
         | ch2 # s2 \<Rightarrow>
             if \<not> is_cont ch2 \<or> (if ch2 < 0x90 then ch = 0xF0 else ch = 0xF4) then Invalid 1
             else (case s2 of
                 [] \<Rightarrow> Truncated
               | ch3 # s3 \<Rightarrow>
                   if \<not> is_cont ch3 then Invalid 2
                   else (case s3 of
                       [] \<Rightarrow> Truncated
                     | ch4 # _ \<Rightarrow>
                         if \<not> is_cont ch4 then Invalid 3
                         else Decoded ((ch - 0xF0) * 262144 + (ch2 - 0x80) * 4096
                                        + (ch3 - 0x80) * 64 + (ch4 - 0x80)) 4)))
      else Invalid 1)"

text \<open>\<^verbatim>\<open>errors='strict'\<close>: \<open>None\<close> stands for \<^verbatim>\<open>UnicodeDecodeError\<close>.\<close>

function utf8_decode_strict :: "nat list \<Rightarrow> pystr option" where
  "utf8_decode_strict [] = Some []"
| "utf8_decode_strict (ch # s) =
     (case utf8_decode_one ch s of
        Decoded cp n \<Rightarrow> map_option ((#) cp) (utf8_decode_strict (drop (n - 1) s))
      | Invalid n \<Rightarrow> None
      | Truncated \<Rightarrow> None)"
  by pat_completeness auto
termination
  by (relation "measure length") auto

text \<open>\<^verbatim>\<open>errors='replace'\<close>: every error becomes one U+FFFD and decoding goes on after it.\<close>

function utf8_decode_replace :: "nat list \<Rightarrow> pystr" where
  "utf8_decode_replace [] = []"
| "utf8_decode_replace (ch # s) =
     (case utf8_decode_one ch s of
        Decoded cp n \<Rightarrow> cp # utf8_decode_replace (drop (n - 1) s)
      | Invalid n \<Rightarrow> 0xFFFD # utf8_decode_replace (drop (n - 1) s)
      | Truncated \<Rightarrow> [0xFFFD])"
  by pat_completeness auto
termination
  by (relation "measure length") auto

definition bytes_decode :: "bytes \<Rightarrow> exn + pystr" where
  "bytes_decode b =
     (case utf8_decode_strict (map unat b) of
        None \<Rightarrow> Inl UnicodeDecodeError
      | Some s \<Rightarrow> Inr s)"

definition bytes_decode_replace :: "bytes \<Rightarrow> pystr" where
  "bytes_decode_replace b = utf8_decode_replace (map unat b)"

section \<open>The \<^verbatim>\<open>json\<close> module: \<^verbatim>\<open>json.dumps(v, ensure_ascii=True)\<close>\<close>

text \<open>
  \<^verbatim>\<open>encode_basestring_ascii\<close>: the backslash and the double quote get a backslash, the
  five control characters of \<^verbatim>\<open>ESCAPE_DCT\<close> their short form, everything else outside
  \<^verbatim>\<open>' '..'~'\<close> a \<^verbatim>\<open>\uXXXX\<close> escape (a surrogate pair above the basic plane).
\<close>

definition hexdigit :: "nat \<Rightarrow> nat" where
  "hexdigit d = (if d < 10 then 0x30 + d else 0x61 + (d - 10))"

definition hex4 :: "nat \<Rightarrow> pystr" where
  "hex4 n = [hexdigit (n div 4096 mod 16), hexdigit (n div 256 mod 16),
             hexdigit (n div 16 mod 16), hexdigit (n mod 16)]"

definition u_escape :: "nat \<Rightarrow> pystr" where
  "u_escape n = 0x5C # ascii ''u'' @ hex4 n"

definition escape_char :: "nat \<Rightarrow> pystr" where
  "escape_char c =
     (if c = 0x5C then [0x5C, 0x5C]
      else if c = 0x22 then [0x5C, 0x22]
      else if c = 0x08 then 0x5C # ascii ''b''
      else if c = 0x0C then 0x5C # ascii ''f''
      else if c = 0x0A then 0x5C # ascii ''n''
      else if c = 0x0D then 0x5C # ascii ''r''
      else if c = 0x09 then 0x5C # ascii ''t''
      else if 0x20 \<le> c \<and> c \<le> 0x7E then [c]
      else if c < 0x10000 then u_escape c
      else (let n = c - 0x10000
            in u_escape (0xD800 + n div 1024 mod 1024) @ u_escape (0xDC00 + n mod 1024)))"

definition encode_basestring_ascii :: "pystr \<Rightarrow> pystr" where
  "encode_basestring_ascii s = 0x22 # concat (map escape_char s) @ [0x22]"

text \<open>
  \<^verbatim>\<open>int.__repr__\<close>: decimal digits, a minus sign for negative numbers, and \<^verbatim>\<open>ValueError\<close>
  ("Exceeds the limit for integer string conversion") when there are more digits than the
  interpreter allows.
\<close>

fun digits :: "nat \<Rightarrow> pystr" where
  "digits n = (if n < 10 then [0x30 + n] else digits (n div 10) @ [0x30 + n mod 10])"

definition int_text :: "int \<Rightarrow> pystr" where
  "int_text i = (if i < 0 then 0x2D # digits (nat (- i)) else digits (nat i))"

definition int_repr :: "'f interp \<Rightarrow> int \<Rightarrow> exn + pystr" where
  "int_repr F i =
     (if digits_allowed F (length (digits (nat \<bar>i\<bar>))) then Inr (int_text i) else Inl ValueError)"

text \<open>
  The C encoder, with the default separators. It walks the value in order and stops at the
  first exception. Entering a list or a dictionary takes one of the calls that the recursion
  limit still allows; \<open>d\<close> counts those that are left. An object of an unknown class is
  handed to \<^verbatim>\<open>JSONEncoder.default\<close>, which raises \<^verbatim>\<open>TypeError\<close> ("Object of type ... is not
  JSON serializable"); getting there takes two calls.
\<close>

fun json_encode :: "'f interp \<Rightarrow> nat \<Rightarrow> 'f pyval \<Rightarrow> exn + pystr"
  and encode_items :: "'f interp \<Rightarrow> nat \<Rightarrow> 'f pyval list \<Rightarrow> exn + pystr"
  and encode_pairs :: "'f interp \<Rightarrow> nat \<Rightarrow> (pystr \<times> 'f pyval) list \<Rightarrow> exn + pystr"
where
  "json_encode F d PNone = Inr (ascii ''null'')"
| "json_encode F d (PBool b) = Inr (if b then ascii ''true'' else ascii ''false'')"
| "json_encode F d (PInt i) = int_repr F i"
| "json_encode F d (PFloat x) = Inr (floatstr F x)"
| "json_encode F d (PStr s) = Inr (encode_basestring_ascii s)"
| "json_encode F 0 (PList xs) = Inl RecursionError"
| "json_encode F (Suc d) (PList xs) =
     (if xs = [] then Inr (ascii ''[]'')
      else (case encode_items F d xs of
              Inl e \<Rightarrow> Inl e
            | Inr r \<Rightarrow> Inr (ascii ''['' @ r @ ascii '']'')))"
| "json_encode F 0 (PDict kvs) = Inl RecursionError"
| "json_encode F (Suc d) (PDict kvs) =
     (if kvs = [] then Inr (ascii ''{}'')
      else (case encode_pairs F d kvs of
              Inl e \<Rightarrow> Inl e
            | Inr r \<Rightarrow> Inr (ascii ''{'' @ r @ ascii ''}'')))"
| "json_encode F d (PObject t) = (if d < 2 then Inl RecursionError else Inl TypeError)"
| "encode_items F d [] = Inr []"
| "encode_items F d [x] = json_encode F d x"
| "encode_items F d (x # y # ys) =
     (case json_encode F d x of
        Inl e \<Rightarrow> Inl e
      | Inr r \<Rightarrow>
          (case encode_items F d (y # ys) of
             Inl e \<Rightarrow> Inl e
           | Inr rs \<Rightarrow> Inr (r @ ascii '', '' @ rs)))"
| "encode_pairs F d [] = Inr []"
| "encode_pairs F d [(k, v)] =
     (case json_encode F d v of
        Inl e \<Rightarrow> Inl e
      | Inr r \<Rightarrow> Inr (encode_basestring_ascii k @ ascii '': '' @ r))"
| "encode_pairs F d ((k, v) # kv # kvs) =
     (case json_encode F d v of
        Inl e \<Rightarrow> Inl e
      | Inr r \<Rightarrow>
          (case encode_pairs F d (kv # kvs) of
             Inl e \<Rightarrow> Inl e
           | Inr rs \<Rightarrow> Inr (encode_basestring_ascii k @ ascii '': '' @ r @ ascii '', '' @ rs)))"

definition json_dumps :: "'f interp \<Rightarrow> 'f pyval \<Rightarrow> exn + pystr" where
  "json_dumps F v = json_encode F (recursion_budget F) v"

section \<open>The \<^verbatim>\<open>json\<close> module: \<^verbatim>\<open>json.loads(s)\<close>\<close>

definition is_ws :: "nat \<Rightarrow> bool" where
  "is_ws c \<longleftrightarrow> c = 0x20 \<or> c = 0x09 \<or> c = 0x0A \<or> c = 0x0D"

definition skip_ws :: "pystr \<Rightarrow> pystr" where
  "skip_ws s = dropWhile is_ws s"

definition hexval :: "nat \<Rightarrow> nat option" where
  "hexval c =
     (if 0x30 \<le> c \<and> c \<le> 0x39 then Some (c - 0x30)
      else if 0x61 \<le> c \<and> c \<le> 0x66 then Some (c - 0x61 + 10)
      else if 0x41 \<le> c \<and> c \<le> 0x46 then Some (c - 0x41 + 10)
      else None)"

text \<open>The four characters after \<^verbatim>\<open>\u\<close>; \<open>None\<close> is "Invalid \uXXXX escape".\<close>

fun decode_uXXXX :: "pystr \<Rightarrow> nat option" where
  "decode_uXXXX (a # b # c # d # _) =
     (case hexval a of None \<Rightarrow> None | Some x3 \<Rightarrow>
      (case hexval b of None \<Rightarrow> None | Some x2 \<Rightarrow>
       (case hexval c of None \<Rightarrow> None | Some x1 \<Rightarrow>
        (case hexval d of None \<Rightarrow> None | Some x0 \<Rightarrow>
           Some (((x3 * 16 + x2) * 16 + x1) * 16 + x0)))))"
| "decode_uXXXX _ = None"

text \<open>The decoder's \<^verbatim>\<open>BACKSLASH\<close> table.\<close>

definition backslash :: "nat \<Rightarrow> nat option" where
  "backslash esc =
     (if esc = 0x22 then Some 0x22
      else if esc = 0x5C then Some 0x5C
      else if esc = 0x2F then Some 0x2F
      else if esc = of_char CHR ''b'' then Some 0x08
      else if esc = of_char CHR ''f'' then Some 0x0C
      else if esc = of_char CHR ''n'' then Some 0x0A
      else if esc = of_char CHR ''r'' then Some 0x0D
      else if esc = of_char CHR ''t'' then Some 0x09
      else None)"

text \<open>
  \<^verbatim>\<open>scanstring\<close> (strict), started after the opening quote: the decoded string and
  the input after the closing quote; \<open>None\<close> is \<^verbatim>\<open>JSONDecodeError\<close>.
\<close>

function scanstring :: "pystr \<Rightarrow> (pystr \<times> pystr) option" where
  "scanstring [] = None"
| "scanstring (c # s) =
     (if c = 0x22 then Some ([], s)
      else if c = 0x5C then
        (case s of
           [] \<Rightarrow> None
         | esc # s' \<Rightarrow>
             if esc \<noteq> of_char CHR ''u'' then
               (case backslash esc of
                  None \<Rightarrow> None
                | Some ch \<Rightarrow> map_option (\<lambda>(str, r). (ch # str, r)) (scanstring s'))
             else
               (case decode_uXXXX s' of
                  None \<Rightarrow> None
                | Some uni \<Rightarrow>
                    if 0xD800 \<le> uni \<and> uni \<le> 0xDBFF \<and> take 2 (drop 4 s') = 0x5C # ascii ''u'' then
                      (case decode_uXXXX (drop 6 s') of
                         None \<Rightarrow> None
                       | Some uni2 \<Rightarrow>
                           if 0xDC00 \<le> uni2 \<and> uni2 \<le> 0xDFFF then
                             map_option
                               (\<lambda>(str, r).
                                  ((0x10000 + (uni - 0xD800) * 1024 + (uni2 - 0xDC00)) # str, r))
                               (scanstring (drop 10 s'))
                           else map_option (\<lambda>(str, r). (uni # str, r)) (scanstring (drop 4 s')))
                    else map_option (\<lambda>(str, r). (uni # str, r)) (scanstring (drop 4 s'))))
      else if c < 0x20 then None
      else map_option (\<lambda>(str, r). (c # str, r)) (scanstring s))"
  by pat_completeness auto
termination
  by (relation "measure length") auto

text \<open>
  \<^verbatim>\<open>NUMBER_RE\<close>, \<^verbatim>\<open>(-?(?:0|[1-9]\d*))(\.\d+)?([eE][-+]?\d+)?\<close>, matched at the start of the
  input: the three groups and the input after the match.
\<close>

definition is_digit :: "nat \<Rightarrow> bool" where
  "is_digit c \<longleftrightarrow> 0x30 \<le> c \<and> c \<le> 0x39"

definition match_digits1 :: "pystr \<Rightarrow> (pystr \<times> pystr) option" where
  "match_digits1 s =
     (case s of
        [] \<Rightarrow> None
      | d # r \<Rightarrow>
          if is_digit d then Some (d # takeWhile is_digit r, dropWhile is_digit r) else None)"

definition match_unsigned :: "pystr \<Rightarrow> (pystr \<times> pystr) option" where
  "match_unsigned s =
     (case s of
        [] \<Rightarrow> None
      | d # r \<Rightarrow> if d = 0x30 then Some ([d], r) else match_digits1 s)"

definition match_integer :: "pystr \<Rightarrow> (pystr \<times> pystr) option" where
  "match_integer s =
     (case s of
        [] \<Rightarrow> None
      | c # r \<Rightarrow>
          if c = of_char CHR ''-'' then
            (case match_unsigned r of
               None \<Rightarrow> None
             | Some (ds, r') \<Rightarrow> Some (c # ds, r'))
          else match_unsigned s)"

definition match_frac :: "pystr \<Rightarrow> pystr \<times> pystr" where
  "match_frac s =
     (case s of
        [] \<Rightarrow> ([], s)
      | c # r \<Rightarrow>
          if c = of_char CHR ''.'' then
            (case match_digits1 r of
               None \<Rightarrow> ([], s)
             | Some (ds, r') \<Rightarrow> (c # ds, r'))
          else ([], s))"

definition match_sign :: "pystr \<Rightarrow> pystr \<times> pystr" where
  "match_sign s =
     (case s of
        [] \<Rightarrow> ([], s)
      | c # r \<Rightarrow> if c = of_char CHR ''-'' \<or> c = of_char CHR ''+'' then ([c], r) else ([], s))"

definition match_exp :: "pystr \<Rightarrow> pystr \<times> pystr" where
  "match_exp s =
     (case s of
        [] \<Rightarrow> ([], s)
      | e # r \<Rightarrow>
          if e = of_char CHR ''e'' \<or> e = of_char CHR ''E'' then
            (case match_digits1 (snd (match_sign r)) of
               None \<Rightarrow> ([], s)
             | Some (ds, r') \<Rightarrow> (e # fst (match_sign r) @ ds, r'))
          else ([], s))"

definition match_number :: "pystr \<Rightarrow> (pystr \<times> pystr \<times> pystr \<times> pystr) option" where
  "match_number s =
     (case match_integer s of
        None \<Rightarrow> None
      | Some (integer, r) \<Rightarrow>
          (let (frac, r1) = match_frac r; (ex, r2) = match_exp r1
           in Some (integer, frac, ex, r2)))"

text \<open>\<^verbatim>\<open>int(s)\<close> on a matched integer literal, with the limit on the number of digits.\<close>

definition digits_value :: "pystr \<Rightarrow> nat" where
  "digits_value ds = foldl (\<lambda>a d. a * 10 + (d - 0x30)) 0 ds"

definition int_of_literal :: "'f interp \<Rightarrow> pystr \<Rightarrow> exn + int" where
  "int_of_literal F s =
     (if take 1 s = ascii ''-'' then
        (if digits_allowed F (length (drop 1 s)) then Inr (- int (digits_value (drop 1 s)))
         else Inl ValueError)
      else
        (if digits_allowed F (length s) then Inr (int (digits_value s)) else Inl ValueError))"

text \<open>\<^verbatim>\<open>dict(pairs)\<close>: a repeated key keeps its place and takes the later value.\<close>

fun dict_setitem :: "('k \<times> 'v) list \<Rightarrow> 'k \<Rightarrow> 'v \<Rightarrow> ('k \<times> 'v) list" where
  "dict_setitem [] k v = [(k, v)]"
| "dict_setitem ((k', v') # d) k v =
     (if k' = k then (k', v) # d else (k', v') # dict_setitem d k v)"

definition dict_of_pairs :: "('k \<times> 'v) list \<Rightarrow> ('k \<times> 'v) list" where
  "dict_of_pairs ps = foldl (\<lambda>d kv. dict_setitem d (fst kv) (snd kv)) [] ps"

text \<open>
  The C scanner. \<open>scan_once\<close> reads one value at the start of its input, \<open>array_items\<close>
  is the loop of \<^verbatim>\<open>JSONArray\<close> (entered before the first element) and \<open>object_pairs\<close> the
  loop of \<^verbatim>\<open>JSONObject\<close> (entered after the opening quote of the first key). A result is
  the value with the rest of the input, \<open>Stop\<close> for \<^verbatim>\<open>StopIteration\<close> and
  \<^verbatim>\<open>JSONDecodeError\<close> (the caller of the scanner reports both as \<^verbatim>\<open>JSONDecodeError\<close>), or
  \<open>Raise e\<close> for another exception: \<^verbatim>\<open>RecursionError\<close> when an array or an object opens
  and none of the \<open>d\<close> calls that the recursion limit allowed is left, \<^verbatim>\<open>ValueError\<close> for
  an integer of too many digits.

  The three functions call each other on ever shorter inputs. The argument \<open>n\<close> bounds
  the number of these calls, so that the definition is by recursion on \<open>n\<close>; \<open>OutOfFuel\<close>
  says that the bound was reached. \<open>json_loads\<close> grants a bound that the length of its
  input never reaches (\<open>scan_enough\<close> below), so \<open>OutOfFuel\<close> is not a result of
  \<open>json_loads\<close>.
\<close>

datatype 'a scan = Ok 'a pystr | Stop | Raise exn | OutOfFuel

fun scan_once :: "'f interp \<Rightarrow> nat \<Rightarrow> nat \<Rightarrow> pystr \<Rightarrow> 'f pyval scan"
  and array_items :: "'f interp \<Rightarrow> nat \<Rightarrow> nat \<Rightarrow> pystr \<Rightarrow> 'f pyval list scan"
  and object_pairs :: "'f interp \<Rightarrow> nat \<Rightarrow> nat \<Rightarrow> pystr \<Rightarrow> (pystr \<times> 'f pyval) list scan"
where
  "scan_once F 0 d s = OutOfFuel"
| "scan_once F (Suc n) d [] = Stop"
| "scan_once F (Suc n) d (c # s) =
     (if c = 0x22 then
        (case scanstring s of
           None \<Rightarrow> Stop
         | Some (str, r) \<Rightarrow> Ok (PStr str) r)
      else if c = of_char CHR ''{'' then
        (case d of
           0 \<Rightarrow> Raise RecursionError
         | Suc d' \<Rightarrow>
             (case skip_ws s of
                [] \<Rightarrow> Stop
              | c' # r \<Rightarrow>
                  if c' = of_char CHR ''}'' then Ok (PDict []) r
                  else if c' = 0x22 then
                    (case object_pairs F n d' r of
                       Ok ps r' \<Rightarrow> Ok (PDict (dict_of_pairs ps)) r'
                     | Stop \<Rightarrow> Stop
                     | Raise e \<Rightarrow> Raise e
                     | OutOfFuel \<Rightarrow> OutOfFuel)
                  else Stop))
      else if c = of_char CHR ''['' then
        (case d of
           0 \<Rightarrow> Raise RecursionError
         | Suc d' \<Rightarrow>
             (case skip_ws s of
                [] \<Rightarrow> Stop
              | c' # r \<Rightarrow>
                  if c' = of_char CHR '']'' then Ok (PList []) r
                  else
                    (case array_items F n d' (c' # r) of
                       Ok vs r' \<Rightarrow> Ok (PList vs) r'
                     | Stop \<Rightarrow> Stop
                     | Raise e \<Rightarrow> Raise e
                     | OutOfFuel \<Rightarrow> OutOfFuel)))
      else if c = of_char CHR ''n'' \<and> take 3 s = ascii ''ull'' then Ok PNone (drop 3 s)
      else if c = of_char CHR ''t'' \<and> take 3 s = ascii ''rue'' then Ok (PBool True) (drop 3 s)
      else if c = of_char CHR ''f'' \<and> take 4 s = ascii ''alse'' then Ok (PBool False) (drop 4 s)
      else
        (case match_number (c # s) of
           Some (integer, frac, ex, r) \<Rightarrow>
             if frac \<noteq> [] \<or> ex \<noteq> []
             then Ok (PFloat (parse_float F (integer @ frac @ ex))) r
             else (case int_of_literal F integer of
                     Inl e \<Rightarrow> Raise e
                   | Inr i \<Rightarrow> Ok (PInt i) r)
         | None \<Rightarrow>
             if c = of_char CHR ''N'' \<and> take 2 s = ascii ''aN''
               then Ok (PFloat (parse_float F (ascii ''NaN''))) (drop 2 s)
             else if c = of_char CHR ''I'' \<and> take 7 s = ascii ''nfinity''
               then Ok (PFloat (parse_float F (ascii ''Infinity''))) (drop 7 s)
             else if c = of_char CHR ''-'' \<and> take 8 s = ascii ''Infinity''
               then Ok (PFloat (parse_float F (ascii ''-Infinity''))) (drop 8 s)
             else Stop))"
| "array_items F 0 d s = OutOfFuel"
| "array_items F (Suc n) d s =
     (case scan_once F n d s of
        Stop \<Rightarrow> Stop
      | Raise e \<Rightarrow> Raise e
      | OutOfFuel \<Rightarrow> OutOfFuel
      | Ok v r \<Rightarrow>
          (case skip_ws r of
             [] \<Rightarrow> Stop
           | c # r' \<Rightarrow>
               if c = of_char CHR '']'' then Ok [v] r'
               else if c = of_char CHR '','' then
                 (case array_items F n d (skip_ws r') of
                    Ok vs r'' \<Rightarrow> Ok (v # vs) r''
                  | Stop \<Rightarrow> Stop
                  | Raise e \<Rightarrow> Raise e
                  | OutOfFuel \<Rightarrow> OutOfFuel)
               else Stop))"
| "object_pairs F 0 d s = OutOfFuel"
| "object_pairs F (Suc n) d s =
     (case scanstring s of
        None \<Rightarrow> Stop
      | Some (key, r) \<Rightarrow>
          (case skip_ws r of
             [] \<Rightarrow> Stop
           | c # r1 \<Rightarrow>
               if c \<noteq> of_char CHR '':'' then Stop
               else
                 (case scan_once F n d (skip_ws r1) of
                    Stop \<Rightarrow> Stop
                  | Raise e \<Rightarrow> Raise e
                  | OutOfFuel \<Rightarrow> OutOfFuel
                  | Ok v r2 \<Rightarrow>
                      (case skip_ws r2 of
                         [] \<Rightarrow> Stop
                       | c2 # r3 \<Rightarrow>
                           if c2 = of_char CHR ''}'' then Ok [(key, v)] r3
                           else if c2 = of_char CHR '','' then
                             (case skip_ws r3 of
                                [] \<Rightarrow> Stop
                              | c3 # r4 \<Rightarrow>
                                  if c3 = 0x22 then
                                    (case object_pairs F n d r4 of
                                       Ok ps r5 \<Rightarrow> Ok ((key, v) # ps) r5
                                     | Stop \<Rightarrow> Stop
                                     | Raise e \<Rightarrow> Raise e
                                     | OutOfFuel \<Rightarrow> OutOfFuel)
                                  else Stop)
                           else Stop))))"

text \<open>
  \<^verbatim>\<open>json.loads\<close> on a \<^verbatim>\<open>str\<close>: a leading byte order mark is refused, white space around
  the document is skipped, anything after it is "Extra data".
\<close>

definition json_loads :: "'f interp \<Rightarrow> pystr \<Rightarrow> exn + 'f pyval" where
  "json_loads F s =
     (if take 1 s = [0xFEFF] then Inl JSONDecodeError
      else case scan_once F (2 * length s + 2) (recursion_budget F) (skip_ws s) of
          Stop \<Rightarrow> Inl JSONDecodeError
        | Raise e \<Rightarrow> Inl e
        | OutOfFuel \<Rightarrow> Inl JSONDecodeError
        | Ok v r \<Rightarrow> if skip_ws r = [] then Inr v else Inl JSONDecodeError)"

section \<open>The metadata codec of \<^verbatim>\<open>ZipArchive\<close>\<close>

text \<open>
  \<^verbatim>\<open>_encode_metadata\<close> and \<^verbatim>\<open>_decode_metadata\<close> (an Isabelle name cannot begin with an
  underscore). The \<^verbatim>\<open>except\<close> clause of the decoder catches \<^verbatim>\<open>JSONDecodeError\<close> and
  \<^verbatim>\<open>UnicodeDecodeError\<close> and lets every other exception through.
\<close>

definition encode_metadata :: "'f interp \<Rightarrow> 'f pyval \<Rightarrow> exn + bytes" where
  "encode_metadata F metadata =
     (case json_dumps F metadata of
        Inl e \<Rightarrow> Inl e
      | Inr s \<Rightarrow> utf8_encode s)"

definition decode_metadata :: "'f interp \<Rightarrow> bytes \<Rightarrow> exn + 'f pyval" where
  "decode_metadata F comment =
     (if comment = [] then Inr (PDict [])
      else
        (case (case bytes_decode comment of Inl e \<Rightarrow> Inl e | Inr s \<Rightarrow> json_loads F s) of
           Inr v \<Rightarrow> Inr v
         | Inl e \<Rightarrow>
             if e = JSONDecodeError \<or> e = UnicodeDecodeError
             then Inr (PDict [(ascii ''comment'', PStr (bytes_decode_replace comment))])
             else Inl e))"

section \<open>The file system and \<^verbatim>\<open>os.path\<close>\<close>

text \<open>
  The file system is what \<^verbatim>\<open>os.stat\<close> and \<^verbatim>\<open>open(path, 'rb')\<close> see: a path names a regular
  file with its content, a directory, or nothing; both carry the year of their modification
  time in local time. Permissions are left out: a regular file can be read.
\<close>

datatype fsnode = RegularFile bytes int | Directory int

type_synonym filesystem = "pystr \<Rightarrow> fsnode option"

definition os_path_exists :: "filesystem \<Rightarrow> pystr \<Rightarrow> bool" where
  "os_path_exists fs p \<longleftrightarrow> fs p \<noteq> None"

definition read_file :: "filesystem \<Rightarrow> pystr \<Rightarrow> exn + bytes" where
  "read_file fs p =
     (case fs p of
        None \<Rightarrow> Inl FileNotFoundError
      | Some (Directory y) \<Rightarrow> Inl IsADirectoryError
      | Some (RegularFile data y) \<Rightarrow> Inr data)"

text \<open>\<^verbatim>\<open>posixpath.basename\<close>: what follows the last slash.\<close>

definition os_path_basename :: "pystr \<Rightarrow> pystr" where
  "os_path_basename p = rev (takeWhile (\<lambda>c. c \<noteq> 0x2F) (rev p))"

text \<open>\<^verbatim>\<open>posixpath.normpath\<close>, with \<^verbatim>\<open>str.split('/')\<close> and \<^verbatim>\<open>'/'.join\<close>.\<close>

fun split_sep :: "pystr \<Rightarrow> pystr list" where
  "split_sep [] = [[]]"
| "split_sep (c # s) =
     (if c = 0x2F then [] # split_sep s
      else (case split_sep s of
              [] \<Rightarrow> [[c]]
            | x # xs \<Rightarrow> (c # x) # xs))"

fun join_sep :: "pystr list \<Rightarrow> pystr" where
  "join_sep [] = []"
| "join_sep [x] = x"
| "join_sep (x # y # ys) = x @ 0x2F # join_sep (y # ys)"

fun norm_comps :: "nat \<Rightarrow> pystr list \<Rightarrow> pystr list \<Rightarrow> pystr list" where
  "norm_comps initial_slashes new_comps [] = new_comps"
| "norm_comps initial_slashes new_comps (part # comps) =
     (if part = [] \<or> part = ascii ''.'' then norm_comps initial_slashes new_comps comps
      else if part \<noteq> ascii ''..'' \<or> (initial_slashes = 0 \<and> new_comps = [])
                \<or> (new_comps \<noteq> [] \<and> last new_comps = ascii ''..'')
        then norm_comps initial_slashes (new_comps @ [part]) comps
      else if new_comps \<noteq> [] then norm_comps initial_slashes (butlast new_comps) comps
      else norm_comps initial_slashes new_comps comps)"

definition os_path_normpath :: "pystr \<Rightarrow> pystr" where
  "os_path_normpath path =
     (if path = [] then ascii ''.''
      else
        (let initial_slashes =
               (if take 1 path = ascii ''/'' then
                  (if take 2 path = ascii ''//'' \<and> take 3 path \<noteq> ascii ''///'' then 2 else 1)
                else (0::nat));
             p = replicate initial_slashes 0x2F
                   @ join_sep (norm_comps initial_slashes [] (split_sep path))
         in if p = [] then ascii ''.'' else p))"

section \<open>The \<^verbatim>\<open>zipfile\<close> module\<close>

text \<open>
  Of a \<^verbatim>\<open>ZipInfo\<close> the model keeps the name, the year of \<^verbatim>\<open>date_time\<close>, the two sizes
  and the comment. Of a \<^verbatim>\<open>ZipFile\<close> it keeps the mode, the stream \<open>fp\<close> (the member
  records written so far, \<open>None\<close> once the file is closed), the list \<open>filelist\<close>, the
  dictionary \<open>NameToInfo\<close> and the archive comment. Members are stored uncompressed
  (\<^verbatim>\<open>ZIP_STORED\<close>, the default of both classes), and ZIP64 is allowed (the default), so
  the size of a member is no reason for failure.
\<close>

record ZipInfo =
  info_filename :: pystr
  date_year :: int
  file_size :: nat
  compress_size :: nat
  info_comment :: bytes

record ZipFile =
  zip_mode :: string
  fp :: "(pystr \<times> bytes) list option"
  filelist :: "ZipInfo list"
  NameToInfo :: "pystr \<Rightarrow> ZipInfo option"
  zip_comment :: bytes

text \<open>What an archive on disk holds for a reader: the central directory, the member
  records and the archive comment.\<close>

record ZipImage =
  central_directory :: "ZipInfo list"
  member_records :: "(pystr \<times> bytes) list"
  end_comment :: bytes

type_synonym disk = "pystr \<Rightarrow> ZipImage option"

text \<open>
  \<^verbatim>\<open>ZipInfo(filename, date_time)\<close> cuts the name at the first null character and raises
  \<^verbatim>\<open>ValueError\<close> ("ZIP does not support timestamps before 1980") for an earlier year.
\<close>

definition ZipInfo_init :: "pystr \<Rightarrow> int \<Rightarrow> exn + ZipInfo" where
  "ZipInfo_init name year =
     (if year < 1980 then Inl ValueError
      else Inr \<lparr>info_filename = takeWhile (\<lambda>c. c \<noteq> 0) name, date_year = year, file_size = 0,
                compress_size = 0, info_comment = []\<rparr>)"

text \<open>
  \<^verbatim>\<open>ZipInfo.from_file(filename, arcname)\<close>: \<^verbatim>\<open>os.stat\<close> on the file, then the archive name is
  normalised, leading slashes are dropped (\<^verbatim>\<open>arcname[0]\<close> raises \<^verbatim>\<open>IndexError\<close> when nothing
  is left) and a directory gets a trailing slash, then the constructor runs.
\<close>

fun strip_leading_sep :: "pystr \<Rightarrow> exn + pystr" where
  "strip_leading_sep [] = Inl IndexError"
| "strip_leading_sep (c # s) = (if c = 0x2F then strip_leading_sep s else Inr (c # s))"

definition ZipInfo_from_file :: "filesystem \<Rightarrow> pystr \<Rightarrow> pystr \<Rightarrow> exn + ZipInfo" where
  "ZipInfo_from_file fs file arcname =
     (case fs file of
        None \<Rightarrow> Inl FileNotFoundError
      | Some node \<Rightarrow>
          (case strip_leading_sep (os_path_normpath arcname) of
             Inl e \<Rightarrow> Inl e
           | Inr name \<Rightarrow>
               (case node of
                  Directory year \<Rightarrow> ZipInfo_init (name @ ascii ''/'') year
                | RegularFile data year \<Rightarrow>
                    (case ZipInfo_init name year of
                       Inl e \<Rightarrow> Inl e
                     | Inr zinfo \<Rightarrow> Inr (zinfo\<lparr>file_size := length data\<rparr>)))))"

text \<open>
  \<^verbatim>\<open>ZipInfo.FileHeader\<close>, as far as it can fail: the name is encoded (as ASCII when it is
  ASCII, as UTF-8 otherwise, which raises \<^verbatim>\<open>UnicodeEncodeError\<close> on a surrogate), and
  \<^verbatim>\<open>struct.pack\<close> raises \<^verbatim>\<open>struct.error\<close> when the year is after 2107 or the encoded name is
  longer than 65535 bytes, which do not fit their sixteen bit fields.
\<close>

definition FileHeader :: "ZipInfo \<Rightarrow> exn + unit" where
  "FileHeader zinfo =
     (case utf8_encode (info_filename zinfo) of
        Inl e \<Rightarrow> Inl e
      | Inr name \<Rightarrow>
          if 2107 < date_year zinfo \<or> 65535 < length name then Inl struct_error else Inr ())"

text \<open>
  \<^verbatim>\<open>ZipFile.writestr(zinfo, data)\<close>: after the checks the header and the data are written
  to the stream, the \<^verbatim>\<open>ZipInfo\<close> is appended to \<open>filelist\<close> and entered in \<open>NameToInfo\<close>
  under its name. A name that is already there only draws a warning ("Duplicate name").
\<close>

definition ZipFile_writestr :: "ZipFile \<Rightarrow> ZipInfo \<Rightarrow> bytes \<Rightarrow> exn + ZipFile" where
  "ZipFile_writestr zf zinfo data =
     (case fp zf of
        None \<Rightarrow> Inl ValueError
      | Some records \<Rightarrow>
          if zip_mode zf \<noteq> ''w'' \<and> zip_mode zf \<noteq> ''x'' \<and> zip_mode zf \<noteq> ''a'' then Inl ValueError
          else
            (case FileHeader zinfo of
               Inl e \<Rightarrow> Inl e
             | Inr u \<Rightarrow>
                 (let z = zinfo\<lparr>file_size := length data, compress_size := length data\<rparr>
                  in Inr (zf\<lparr>fp := Some (records @ [(info_filename z, data)]),
                              filelist := filelist zf @ [z],
                              NameToInfo := (NameToInfo zf)(info_filename z \<mapsto> z)\<rparr>))))"

definition ZipFile_getinfo :: "ZipFile \<Rightarrow> pystr \<Rightarrow> exn + ZipInfo" where
  "ZipFile_getinfo zf name =
     (case NameToInfo zf name of
        None \<Rightarrow> Inl KeyError
      | Some info \<Rightarrow> Inr info)"

text \<open>The setter of \<^verbatim>\<open>ZipFile.comment\<close> cuts the comment at \<^verbatim>\<open>ZIP_MAX_COMMENT\<close> bytes.\<close>

definition ZipFile_set_comment :: "ZipFile \<Rightarrow> bytes \<Rightarrow> ZipFile" where
  "ZipFile_set_comment zf c = zf\<lparr>zip_comment := take 65535 c\<rparr>"

text \<open>
  \<^verbatim>\<open>zipfile.ZipFile(filename, mode)\<close>. Mode \<^verbatim>\<open>'w'\<close> starts an empty archive; mode \<^verbatim>\<open>'r'\<close>
  reads the central directory in order, appending every entry to \<open>filelist\<close> and entering
  it in \<open>NameToInfo\<close>.
\<close>

definition read_entry :: "ZipFile \<Rightarrow> ZipInfo \<Rightarrow> ZipFile" where
  "read_entry zf x =
     zf\<lparr>filelist := filelist zf @ [x], NameToInfo := (NameToInfo zf)(info_filename x \<mapsto> x)\<rparr>"

definition ZipFile_init :: "disk \<Rightarrow> pystr \<Rightarrow> string \<Rightarrow> exn + ZipFile" where
  "ZipFile_init dk file m =
     (if m = ''w'' then
        Inr \<lparr>zip_mode = m, fp = Some [], filelist = [], NameToInfo = Map.empty,
             zip_comment = []\<rparr>
      else if m = ''r'' then
        (case dk file of
           None \<Rightarrow> Inl FileNotFoundError
         | Some img \<Rightarrow>
             Inr (foldl read_entry
                    \<lparr>zip_mode = m, fp = Some (member_records img), filelist = [],
                     NameToInfo = Map.empty, zip_comment = end_comment img\<rparr>
                    (central_directory img)))
      else Inl ValueError)"

section \<open>\<^verbatim>\<open>class ZipArchive\<close>\<close>

record ZipArchive =
  filename :: pystr
  mode :: string
  archive :: "ZipFile option"

definition ZipArchive_init :: "pystr \<Rightarrow> string \<Rightarrow> exn + ZipArchive" where
  "ZipArchive_init file m =
     (if m \<noteq> ''w'' \<and> m \<noteq> ''r'' then Inl ValueError
      else Inr \<lparr>filename = file, mode = m, archive = None\<rparr>)"

definition ZipArchive_enter :: "disk \<Rightarrow> ZipArchive \<Rightarrow> exn + ZipArchive" where
  "ZipArchive_enter dk self =
     (case ZipFile_init dk (filename self) (mode self) of
        Inl e \<Rightarrow> Inl e
      | Inr zf \<Rightarrow> Inr (self\<lparr>archive := Some zf\<rparr>))"

text \<open>
  The methods. Each begins with the test of the decorator \<^verbatim>\<open>requires_open_archive\<close>. A
  method that changes the handle returns the handle next to its result, so that the state
  after a raised exception is part of the model. Closing the archive (\<^verbatim>\<open>__exit__\<close>) is not
  modelled.
\<close>

definition name_in_archive :: "pystr \<Rightarrow> pystr option \<Rightarrow> pystr" where
  "name_in_archive filepath arcname =
     (case arcname of
        None \<Rightarrow> os_path_basename filepath
      | Some a \<Rightarrow> if a \<noteq> [] then a else os_path_basename filepath)"

definition add_file ::
  "'f interp \<Rightarrow> filesystem \<Rightarrow> ZipArchive \<Rightarrow> pystr \<Rightarrow> 'f pyval \<Rightarrow> pystr option
     \<Rightarrow> (exn + unit) \<times> ZipArchive" where
  "add_file F fs self filepath metadata arcname =
     (case archive self of
        None \<Rightarrow> (Inl RuntimeError_not_opened, self)
      | Some zf \<Rightarrow>
          if mode self \<noteq> ''w'' then (Inl RuntimeError_write_mode, self)
          else if \<not> os_path_exists fs filepath then (Inl FileNotFoundError, self)
          else
            (case ZipInfo_from_file fs filepath (name_in_archive filepath arcname) of
               Inl e \<Rightarrow> (Inl e, self)
             | Inr zinfo \<Rightarrow>
                 (case (if py_bool F metadata
                        then (case encode_metadata F metadata of
                                Inl e \<Rightarrow> Inl e
                              | Inr c \<Rightarrow> Inr (zinfo\<lparr>info_comment := c\<rparr>))
                        else Inr zinfo) of
                    Inl e \<Rightarrow> (Inl e, self)
                  | Inr zinfo' \<Rightarrow>
                      (case read_file fs filepath of
                         Inl e \<Rightarrow> (Inl e, self)
                       | Inr data \<Rightarrow>
                           (case ZipFile_writestr zf zinfo' data of
                              Inl e \<Rightarrow> (Inl e, self)
                            | Inr zf' \<Rightarrow> (Inr (), self\<lparr>archive := Some zf'\<rparr>))))))"

definition set_archive_metadata ::
  "'f interp \<Rightarrow> ZipArchive \<Rightarrow> 'f pyval \<Rightarrow> (exn + unit) \<times> ZipArchive" where
  "set_archive_metadata F self metadata =
     (case archive self of
        None \<Rightarrow> (Inl RuntimeError_not_opened, self)
      | Some zf \<Rightarrow>
          if mode self \<noteq> ''w'' then (Inl RuntimeError_write_mode, self)
          else
            (case encode_metadata F metadata of
               Inl e \<Rightarrow> (Inl e, self)
             | Inr c \<Rightarrow> (Inr (), self\<lparr>archive := Some (ZipFile_set_comment zf c)\<rparr>)))"

definition get_archive_metadata :: "'f interp \<Rightarrow> ZipArchive \<Rightarrow> exn + 'f pyval" where
  "get_archive_metadata F self =
     (case archive self of
        None \<Rightarrow> Inl RuntimeError_not_opened
      | Some zf \<Rightarrow> decode_metadata F (zip_comment zf))"

definition get_file_metadata :: "'f interp \<Rightarrow> ZipArchive \<Rightarrow> pystr \<Rightarrow> exn + 'f pyval" where
  "get_file_metadata F self name =
     (case archive self of
        None \<Rightarrow> Inl RuntimeError_not_opened
      | Some zf \<Rightarrow>
          (case (case ZipFile_getinfo zf (os_path_basename name) of
                   Inl e \<Rightarrow> Inl e
                 | Inr info \<Rightarrow> decode_metadata F (info_comment info)) of
             Inl e \<Rightarrow> if e = KeyError then Inl KeyError else Inl e
           | Inr v \<Rightarrow> Inr v))"

text \<open>One element of the list \<^verbatim>\<open>list_contents\<close> returns, a dictionary with four keys.\<close>

definition contents_item :: "ZipInfo \<Rightarrow> 'f pyval \<Rightarrow> 'f pyval" where
  "contents_item info md =
     PDict [(ascii ''filename'', PStr (info_filename info)),
            (ascii ''size'', PInt (int (file_size info))),
            (ascii ''compressed_size'', PInt (int (compress_size info))),
            (ascii ''metadata'', md)]"

fun contents_loop :: "'f interp \<Rightarrow> ZipInfo list \<Rightarrow> exn + 'f pyval list" where
  "contents_loop F [] = Inr []"
| "contents_loop F (info # infos) =
     (case decode_metadata F (info_comment info) of
        Inl e \<Rightarrow> Inl e
      | Inr md \<Rightarrow>
          (case contents_loop F infos of
             Inl e \<Rightarrow> Inl e
           | Inr rest \<Rightarrow> Inr (contents_item info md # rest)))"

definition list_contents :: "'f interp \<Rightarrow> ZipArchive \<Rightarrow> exn + 'f pyval list" where
  "list_contents F self =
     (case archive self of
        None \<Rightarrow> Inl RuntimeError_not_opened
      | Some zf \<Rightarrow> contents_loop F (filelist zf))"

section \<open>Notions used to state the properties\<close>

text \<open>The entry that \<open>NameToInfo\<close> holds for a name when it is kept in step with
  \<open>filelist\<close>: the last one written under that name.\<close>

definition lookup_last :: "ZipInfo list \<Rightarrow> pystr \<Rightarrow> ZipInfo option" where
  "lookup_last infos name = find (\<lambda>i. info_filename i = name) (rev infos)"

text \<open>The invariant of a handle: the \<^verbatim>\<open>ZipFile\<close> has the mode of the handle, and its
  dictionary agrees with its list.\<close>

definition handle_inv :: "ZipArchive \<Rightarrow> bool" where
  "handle_inv self \<longleftrightarrow>
     (case archive self of
        None \<Rightarrow> True
      | Some zf \<Rightarrow> zip_mode zf = mode self \<and> NameToInfo zf = lookup_last (filelist zf))"

text \<open>A value has no JSON form when an object of an unknown class occurs in it.\<close>

fun serializable :: "'f pyval \<Rightarrow> bool" where
  "serializable (PObject t) = False"
| "serializable (PList xs) = list_all serializable xs"
| "serializable (PDict kvs) = list_all (\<lambda>kv. serializable (snd kv)) kvs"
| "serializable _ = True"

text \<open>
  A value is within the limits of the interpreter, with \<open>d\<close> nested calls left, when its
  lists and dictionaries nest no deeper than \<open>d\<close>, an object of an unknown class has two
  calls left where it occurs, and no integer has more digits than are allowed.
\<close>

fun within_limits :: "'f interp \<Rightarrow> nat \<Rightarrow> 'f pyval \<Rightarrow> bool" where
  "within_limits F d (PInt i) = digits_allowed F (length (digits (nat \<bar>i\<bar>)))"
| "within_limits F d (PList xs) = (d \<noteq> 0 \<and> list_all (within_limits F (d - 1)) xs)"
| "within_limits F d (PDict kvs) =
     (d \<noteq> 0 \<and> list_all (\<lambda>kv. within_limits F (d - 1) (snd kv)) kvs)"
| "within_limits F d (PObject t) = (2 \<le> d)"
| "within_limits F d v = True"

text \<open>The text of a value: what the encoder returns when it returns.\<close>

fun json_render :: "'f interp \<Rightarrow> 'f pyval \<Rightarrow> pystr"
  and render_items :: "'f interp \<Rightarrow> 'f pyval list \<Rightarrow> pystr"
  and render_pairs :: "'f interp \<Rightarrow> (pystr \<times> 'f pyval) list \<Rightarrow> pystr"
where
  "json_render F PNone = ascii ''null''"
| "json_render F (PBool b) = (if b then ascii ''true'' else ascii ''false'')"
| "json_render F (PInt i) = int_text i"
| "json_render F (PFloat x) = floatstr F x"
| "json_render F (PStr s) = encode_basestring_ascii s"
| "json_render F (PList xs) =
     (if xs = [] then ascii ''[]'' else ascii ''['' @ render_items F xs @ ascii '']'')"
| "json_render F (PDict kvs) =
     (if kvs = [] then ascii ''{}'' else ascii ''{'' @ render_pairs F kvs @ ascii ''}'')"
| "json_render F (PObject t) = []"
| "render_items F [] = []"
| "render_items F [x] = json_render F x"
| "render_items F (x # y # ys) = json_render F x @ ascii '', '' @ render_items F (y # ys)"
| "render_pairs F [] = []"
| "render_pairs F [(k, v)] = encode_basestring_ascii k @ ascii '': '' @ json_render F v"
| "render_pairs F ((k, v) # kv # kvs) =
     encode_basestring_ascii k @ ascii '': '' @ json_render F v @ ascii '', ''
       @ render_pairs F (kv # kvs)"

text \<open>
  The values the round trip is stated for: JSON trees whose strings are Unicode text (no
  surrogate code points), whose dictionaries have distinct keys (as every Python \<^verbatim>\<open>dict\<close>
  has) and which hold no floating point number and no object of an unknown class.
\<close>

definition unicode_text :: "pystr \<Rightarrow> bool" where
  "unicode_text s = list_all (\<lambda>c. c < 0x110000 \<and> \<not> (0xD800 \<le> c \<and> c \<le> 0xDFFF)) s"

fun json_value :: "'f pyval \<Rightarrow> bool" where
  "json_value PNone = True"
| "json_value (PBool b) = True"
| "json_value (PInt i) = True"
| "json_value (PFloat x) = False"
| "json_value (PStr s) = unicode_text s"
| "json_value (PList xs) = list_all json_value xs"
| "json_value (PDict kvs) =
     (distinct (map fst kvs) \<and> list_all (\<lambda>kv. unicode_text (fst kv) \<and> json_value (snd kv)) kvs)"
| "json_value (PObject t) = False"

text \<open>What follows a value in the text of the encoder: nothing, a comma, or a closing
  bracket or brace.\<close>

definition delimited :: "pystr \<Rightarrow> bool" where
  "delimited r \<longleftrightarrow> (case r of [] \<Rightarrow> True | c # _ \<Rightarrow> c = 0x2C \<or> c = 0x5D \<or> c = 0x7D)"

section \<open>A session used as the running example\<close>

text \<open>
  An interpreter with the default limits, used at module level; its floats play no part.
  Two files named alike in two directories, as in \<^verbatim>\<open>test_multiple_files_same_name\<close>, and
  an archive on disk with one member whose comment is not JSON.
\<close>

definition example_interp :: "unit interp" where
  "example_interp =
     \<lparr>floatstr = (\<lambda>x. ascii ''0.0''), parse_float = (\<lambda>s. ()), float_bool = (\<lambda>x. False),
      recursion_budget = 992, max_str_digits = 4300\<rparr>"

definition example_fs :: filesystem where
  "example_fs =
     [ascii ''dir1/test.txt'' \<mapsto> RegularFile (bytes_literal ''content1'') 2024,
      ascii ''dir2/test.txt'' \<mapsto> RegularFile (bytes_literal ''second'') 2024]"

definition doc_info :: ZipInfo where
  "doc_info =
     \<lparr>info_filename = ascii ''doc.txt'', date_year = 2024, file_size = 5, compress_size = 5,
      info_comment = bytes_literal ''not json''\<rparr>"

definition example_disk :: disk where
  "example_disk =
     [ascii ''old.zip'' \<mapsto>
        \<lparr>central_directory = [doc_info],
         member_records = [(ascii ''doc.txt'', bytes_literal ''hello'')],
         end_comment = []\<rparr>]"

definition fresh_zip :: ZipFile where
  "fresh_zip =
     \<lparr>zip_mode = ''w'', fp = Some [], filelist = [], NameToInfo = Map.empty, zip_comment = []\<rparr>"

definition fresh_handle :: ZipArchive where
  "fresh_handle = \<lparr>filename = ascii ''test.zip'', mode = ''w'', archive = Some fresh_zip\<rparr>"

definition reader_zip :: ZipFile where
  "reader_zip =
     \<lparr>zip_mode = ''r'', fp = Some [(ascii ''doc.txt'', bytes_literal ''hello'')],
      filelist = [doc_info], NameToInfo = [ascii ''doc.txt'' \<mapsto> doc_info],
      zip_comment = []\<rparr>"

definition reader_handle :: ZipArchive where
  "reader_handle = \<lparr>filename = ascii ''old.zip'', mode = ''r'', archive = Some reader_zip\<rparr>"

definition test_info :: ZipInfo where
  "test_info =
     \<lparr>info_filename = ascii ''test.txt'', date_year = 2024, file_size = 8, compress_size = 8,
      info_comment = []\<rparr>"

definition plain_zip :: ZipFile where
  "plain_zip =
     \<lparr>zip_mode = ''w'', fp = Some [(ascii ''test.txt'', bytes_literal ''content1'')],
      filelist = [test_info], NameToInfo = [ascii ''test.txt'' \<mapsto> test_info],
      zip_comment = []\<rparr>"

definition plain_added :: ZipArchive where
  "plain_added = \<lparr>filename = ascii ''test.zip'', mode = ''w'', archive = Some plain_zip\<rparr>"

definition source_dir1 :: "unit pyval" where
  "source_dir1 = PDict [(ascii ''source'', PStr (ascii ''dir1''))]"

definition source_dir2 :: "unit pyval" where
  "source_dir2 = PDict [(ascii ''source'', PStr (ascii ''dir2''))]"

text \<open>The two files added one after the other under the name \<^verbatim>\<open>test.txt\<close>.\<close>

definition first_added :: ZipArchive where
  "first_added =
     snd (add_file example_interp example_fs fresh_handle (ascii ''dir1/test.txt'') source_dir1
            (Some (ascii ''test.txt'')))"

definition second_added :: ZipArchive where
  "second_added =
     snd (add_file example_interp example_fs first_added (ascii ''dir2/test.txt'') source_dir2
            (Some (ascii ''test.txt'')))"

text \<open>The bytes of \<^verbatim>\<open>{"source": "dir1"}\<close>; a string of the two surrogates U+D83D and U+DE00,
  and the bytes of its JSON text, the escapes \<^verbatim>\<open>\ud83d\<close> and \<^verbatim>\<open>\ude00\<close> between quotes.\<close>

definition dir1_comment :: bytes where
  "dir1_comment =
     0x7B # 0x22 # bytes_literal ''source'' @ 0x22 # bytes_literal '': '' @
     0x22 # bytes_literal ''dir1'' @ [0x22, 0x7D]"



text \<open>An archive whose comment, and the comment of whose only entry, is a thousand opening
  brackets; and a comment of 4301 digits.\<close>

definition deep_comment :: bytes where
  "deep_comment = replicate 1000 0x5B"

definition long_number :: bytes where
  "long_number = replicate 4301 0x31"

definition deep_info :: ZipInfo where
  "deep_info =
     \<lparr>info_filename = ascii ''doc.txt'', date_year = 2024, file_size = 5, compress_size = 5,
      info_comment = deep_comment\<rparr>"

definition deep_zip :: ZipFile where
  "deep_zip =
     \<lparr>zip_mode = ''r'', fp = Some [(ascii ''doc.txt'', bytes_literal ''hello'')],
      filelist = [deep_info], NameToInfo = [ascii ''doc.txt'' \<mapsto> deep_info],
      zip_comment = deep_comment\<rparr>"

definition deep_reader :: ZipArchive where
  "deep_reader = \<lparr>filename = ascii ''deep.zip'', mode = ''r'', archive = Some deep_zip\<rparr>"

section \<open>The scanner consumes its input and is granted enough calls\<close>

lemma skip_ws_length: "length (skip_ws s) \<le> length s"
  by (simp add: skip_ws_def length_dropWhile_le)

lemma skip_ws_Cons_length: "skip_ws s = c # r \<Longrightarrow> length r < length s"
  using skip_ws_length [of s] by simp

lemma scanstring_shorter: "scanstring s = Some (str, r) \<Longrightarrow> length r < length s"
proof (induction "length s" arbitrary: s str rule: less_induct)
  case less
  have IH: "\<And>t a. scanstring t = Some (a, r) \<Longrightarrow> length t < length s \<Longrightarrow> length r < length t"
    using less.hyps by blast
  show ?case
  proof (cases s)
    case Nil
    with less.prems show ?thesis by simp
  next
    case (Cons c s')
    show ?thesis using less.prems unfolding Cons
      by (auto split: if_splits list.splits option.splits dest!: IH simp: Cons)
  qed
qed

lemma match_digits1_shorter: "match_digits1 s = Some (ds, r) \<Longrightarrow> length r < length s"
  by (auto simp: match_digits1_def split: list.splits if_splits
      intro: le_less_trans [OF length_dropWhile_le])

lemma match_unsigned_shorter: "match_unsigned s = Some (ds, r) \<Longrightarrow> length r < length s"
  by (auto simp: match_unsigned_def split: list.splits if_splits dest: match_digits1_shorter)

lemma match_integer_shorter: "match_integer s = Some (i, r) \<Longrightarrow> length r < length s"
  by (auto simp: match_integer_def split: list.splits if_splits option.splits
      dest: match_unsigned_shorter)

lemma match_frac_length: "match_frac s = (f, r) \<Longrightarrow> length r \<le> length s"
  by (auto simp: match_frac_def split: list.splits if_splits option.splits
      dest: match_digits1_shorter)

lemma match_sign_length: "length (snd (match_sign s)) \<le> length s"
  by (auto simp: match_sign_def split: list.splits)

lemma match_exp_length: "match_exp s = (e, r) \<Longrightarrow> length r \<le> length s"
  using match_sign_length
  by (fastforce simp: match_exp_def split: list.splits if_splits option.splits
      dest!: match_digits1_shorter intro: less_imp_le le_trans less_le_trans)

lemma match_number_shorter: 
  assumes "match_number s = Some (i, f, e, r)" shows "length r < length s"
proof -
  from assms obtain r0 r1 where a: "match_integer s = Some (i, r0)" and b: "match_frac r0 = (f, r1)" and c: "match_exp r1 = (e, r)"
    by (auto simp: match_number_def Let_def split: option.splits prod.splits)
  from match_integer_shorter [OF a] match_frac_length [OF b] match_exp_length [OF c]
  show ?thesis by simp
qed

lemma scan_consumes:
  "(\<forall>d s v r. scan_once F n d s = Ok v r \<longrightarrow> length r < length s) \<and>
   (\<forall>d s vs r. array_items F n d s = Ok vs r \<longrightarrow> length r < length s) \<and>
   (\<forall>d s ps r. object_pairs F n d s = Ok ps r \<longrightarrow> length r < length s)"
proof (induction n)
  case 0
  show ?case by simp
next
  case (Suc n)
  have IH1: "\<And>d s v r. scan_once F n d s = Ok v r \<Longrightarrow> length r < length s"
    and IH2: "\<And>d s vs r. array_items F n d s = Ok vs r \<Longrightarrow> length r < length s"
    and IH3: "\<And>d s ps r. object_pairs F n d s = Ok ps r \<Longrightarrow> length r < length s"
    using Suc.IH by blast+
  have A: "length r < length s" if "scan_once F (Suc n) d s = Ok v r" for d s v r
  proof (cases s)
    case Nil
    with that show ?thesis by simp
  next
    case (Cons c s')
    show ?thesis using that unfolding Cons
      by (auto split: if_splits list.splits option.splits scan.splits prod.splits nat.splits
          sum.splits
          dest!: IH2 IH3 scanstring_shorter match_number_shorter skip_ws_Cons_length)
  qed
  have IH1': "\<And>d s v r. scan_once F n d (skip_ws s) = Ok v r \<Longrightarrow> length r < length s"
    and IH2': "\<And>d s vs r. array_items F n d (skip_ws s) = Ok vs r \<Longrightarrow> length r < length s"
    using IH1 IH2 skip_ws_length less_le_trans by blast+
  have B: "length r < length s" if "array_items F (Suc n) d s = Ok vs r" for d s vs r
    using that
    by (auto split: if_splits list.splits option.splits scan.splits prod.splits
          dest!: IH2' IH1 skip_ws_Cons_length)
  have C: "length r < length s" if "object_pairs F (Suc n) d s = Ok ps r" for d s ps r
    using that 
    by (auto split: if_splits list.splits option.splits scan.splits prod.splits
          dest!: IH1' IH3 skip_ws_Cons_length scanstring_shorter) 
  from A B C show ?case by blast
qed

lemma scan_enough:
  "(\<forall>d s. 2 * length s + 1 \<le> n \<longrightarrow> scan_once F n d s \<noteq> OutOfFuel) \<and>
   (\<forall>d s. 2 * length s + 2 \<le> n \<longrightarrow> array_items F n d s \<noteq> OutOfFuel) \<and>
   (\<forall>d s. 2 * length s + 1 \<le> n \<longrightarrow> object_pairs F n d s \<noteq> OutOfFuel)"
proof (induction n)
  case 0
  show ?case by simp
next
  case (Suc n)
  have IH1: "\<And>d s. 2 * length s + 1 \<le> n \<Longrightarrow> scan_once F n d s \<noteq> OutOfFuel"
    and IH2: "\<And>d s. 2 * length s + 2 \<le> n \<Longrightarrow> array_items F n d s \<noteq> OutOfFuel"
    and IH3: "\<And>d s. 2 * length s + 1 \<le> n \<Longrightarrow> object_pairs F n d s \<noteq> OutOfFuel"
    using Suc.IH by blast+
  note C = scan_consumes [of F n, THEN conjunct1, rule_format]
  have A: "scan_once F (Suc n) d s \<noteq> OutOfFuel" if len: "2 * length s + 1 \<le> Suc n" for d s
  proof (cases s)
    case Nil
    then show ?thesis by simp
  next
    case (Cons c s')
    have a: "array_items F n d' (x # r) \<noteq> OutOfFuel" if "skip_ws s' = x # r" for x r d'
      using IH2 [where s = "x # r"] skip_ws_length [of s'] that len Cons by simp
    have b: "object_pairs F n d' r \<noteq> OutOfFuel" if "skip_ws s' = x # r" for x r d'
      using IH3 [where s = r] skip_ws_length [of s'] that len Cons by simp
    show ?thesis
    proof
      assume "scan_once F (Suc n) d s = OutOfFuel"
      then show False unfolding Cons
        by (auto split: if_splits list.splits option.splits scan.splits prod.splits nat.splits
            sum.splits simp: a b)
    qed
  qed
  have B: "array_items F (Suc n) d s \<noteq> OutOfFuel" if len: "2 * length s + 2 \<le> Suc n" for d s
  proof
    have a: "scan_once F n d s \<noteq> OutOfFuel" using IH1 [where s = s] len by simp
    have b: "array_items F n d (skip_ws r') \<noteq> OutOfFuel"
      if "scan_once F n d s = Ok v r" "skip_ws r = c # r'" for v r c r'
      using IH2 [where s = "skip_ws r'"] C [OF that(1)] skip_ws_Cons_length [OF that(2)]
        skip_ws_length [of r'] len by simp
    assume "array_items F (Suc n) d s = OutOfFuel"
    then show False
      by (auto split: if_splits list.splits option.splits scan.splits prod.splits simp: a b)
  qed
  have D: "object_pairs F (Suc n) d s \<noteq> OutOfFuel" if len: "2 * length s + 1 \<le> Suc n" for d s
  proof
    have a: "scan_once F n d (skip_ws r1) \<noteq> OutOfFuel"
      if "scanstring s = Some (key, r)" "skip_ws r = c # r1" for key r c r1
      using IH1 [where s = "skip_ws r1"] scanstring_shorter [OF that(1)]
        skip_ws_Cons_length [OF that(2)] skip_ws_length [of r1] len by simp
    have b: "object_pairs F n d r4 \<noteq> OutOfFuel"
      if "scanstring s = Some (key, r)" "skip_ws r = c # r1"
        "scan_once F n d (skip_ws r1) = Ok v r2"
        "skip_ws r2 = c2 # r3" "skip_ws r3 = c3 # r4" for key r c r1 v r2 c2 r3 c3 r4
      using IH3 [where s = r4] scanstring_shorter [OF that(1)] skip_ws_Cons_length [OF that(2)]
        C [OF that(3)] skip_ws_Cons_length [OF that(4)] skip_ws_Cons_length [OF that(5)]
        skip_ws_length [of r1] len by simp
    assume "object_pairs F (Suc n) d s = OutOfFuel"
    then show False
      by (auto split: if_splits list.splits option.splits scan.splits prod.splits simp: a b)
  qed
  from A B D show ?case by blast
qed

lemma scan_stable:
  "(\<forall>d s. scan_once F n d s \<noteq> OutOfFuel \<longrightarrow> scan_once F (Suc n) d s = scan_once F n d s) \<and>
   (\<forall>d s. array_items F n d s \<noteq> OutOfFuel \<longrightarrow> array_items F (Suc n) d s = array_items F n d s) \<and>
   (\<forall>d s. object_pairs F n d s \<noteq> OutOfFuel \<longrightarrow>
      object_pairs F (Suc n) d s = object_pairs F n d s)"
proof (induction n)
  case 0
  show ?case by simp
next
  case (Suc n)
  have IH1: "scan_once F (Suc n) d s = scan_once F n d s" if "scan_once F n d s \<noteq> OutOfFuel"
    for d s using Suc.IH that by blast
  have IH2: "array_items F (Suc n) d s = array_items F n d s"
    if "array_items F n d s \<noteq> OutOfFuel" for d s
    using Suc.IH that by blast
  have IH3: "object_pairs F (Suc n) d s = object_pairs F n d s"
    if "object_pairs F n d s \<noteq> OutOfFuel" for d s
    using Suc.IH that by blast
  have A: "scan_once F (Suc (Suc n)) d s = scan_once F (Suc n) d s"
    if ne: "scan_once F (Suc n) d s \<noteq> OutOfFuel" for d s
  proof -
    have "scan_once F (Suc (Suc n)) d s = res"
      if "scan_once F (Suc n) d s = res" "res \<noteq> OutOfFuel" for res
    proof (cases s)
      case Nil
      with that show ?thesis by simp
    next
      case (Cons c s')
      show ?thesis using that unfolding Cons
        apply (subst scan_once.simps(3) [of F "Suc n"])
        apply (subst (asm) scan_once.simps(3) [of F n])
        apply (auto split: list.split_asm option.split_asm scan.split_asm prod.split_asm
            if_split_asm nat.split_asm sum.split_asm
            split del: if_split simp: IH2 IH3
            simp del: scan_once.simps array_items.simps object_pairs.simps)
        apply (auto simp: IH2 IH3 split: scan.splits
            simp del: scan_once.simps array_items.simps object_pairs.simps)
        done
    qed
    with ne show ?thesis by simp
  qed
  have B: "array_items F (Suc (Suc n)) d s = array_items F (Suc n) d s"
    if ne: "array_items F (Suc n) d s \<noteq> OutOfFuel" for d s
  proof -
    have "array_items F (Suc (Suc n)) d s = res"
      if "array_items F (Suc n) d s = res" "res \<noteq> OutOfFuel" for res
      using that
      apply (subst array_items.simps(2) [of F "Suc n"])
      apply (subst (asm) array_items.simps(2) [of F n])
      apply (auto split: list.split_asm option.split_asm scan.split_asm prod.split_asm if_split_asm
          split del: if_split simp: IH1 IH2
          simp del: scan_once.simps array_items.simps object_pairs.simps)
      apply (auto simp: IH1 IH2 split: scan.splits
            simp del: scan_once.simps array_items.simps object_pairs.simps)
      done
    with ne show ?thesis by simp
  qed
  have D: "object_pairs F (Suc (Suc n)) d s = object_pairs F (Suc n) d s"
    if ne: "object_pairs F (Suc n) d s \<noteq> OutOfFuel" for d s
  proof -
    have "object_pairs F (Suc (Suc n)) d s = res"
      if "object_pairs F (Suc n) d s = res" "res \<noteq> OutOfFuel" for res
      using that
      apply (subst object_pairs.simps(2) [of F "Suc n"])
      apply (subst (asm) object_pairs.simps(2) [of F n])
      apply (auto split: list.split_asm option.split_asm scan.split_asm prod.split_asm if_split_asm
          split del: if_split simp: IH1 IH3
          simp del: scan_once.simps array_items.simps object_pairs.simps)
      apply (auto simp: IH1 IH3 split: scan.splits
            simp del: scan_once.simps array_items.simps object_pairs.simps)
      done
    with ne show ?thesis by simp
  qed
  from A B D show ?case by blast
qed

subsection \<open>The result of the scanner does not depend on the bound\<close>

lemma scan_once_mono:
  assumes "scan_once F n d s \<noteq> OutOfFuel" "n \<le> m"
  shows "scan_once F m d s = scan_once F n d s"
proof -
  have "scan_once F (n + k) d s = scan_once F n d s" for k
  proof (induction k)
    case 0
    show ?case by simp
  next
    case (Suc k)
    then have "scan_once F (n + k) d s \<noteq> OutOfFuel" using assms(1) by simp
    then have "scan_once F (Suc (n + k)) d s = scan_once F (n + k) d s"
      using scan_stable [of F "n + k"] by blast
    with Suc show ?case by simp
  qed
  from this [of "m - n"] assms(2) show ?thesis by simp
qed

lemma scan_once_any_fuel:
  assumes "scan_once F n d s \<noteq> OutOfFuel" "scan_once F m d s \<noteq> OutOfFuel"
  shows "scan_once F m d s = scan_once F n d s"
proof (cases "n \<le> m")
  case True
  with assms(1) show ?thesis by (rule scan_once_mono)
next
  case False
  then have "m \<le> n" by simp
  with assms(2) have "scan_once F n d s = scan_once F m d s" by (rule scan_once_mono)
  then show ?thesis by simp
qed

lemma json_loads_fuel:
  assumes "scan_once F n (recursion_budget F) (skip_ws s) \<noteq> OutOfFuel"
  shows "json_loads F s =
     (if take 1 s = [0xFEFF] then Inl JSONDecodeError
      else case scan_once F n (recursion_budget F) (skip_ws s) of
          Stop \<Rightarrow> Inl JSONDecodeError
        | Raise e \<Rightarrow> Inl e
        | OutOfFuel \<Rightarrow> Inl JSONDecodeError
        | Ok v r \<Rightarrow> if skip_ws r = [] then Inr v else Inl JSONDecodeError)"
proof -
  have "2 * length (skip_ws s) + 1 \<le> 2 * length s + 2"
    using skip_ws_length [of s] by simp
  then have "scan_once F (2 * length s + 2) (recursion_budget F) (skip_ws s) \<noteq> OutOfFuel"
    using scan_enough [of "2 * length s + 2" F] by blast
  from scan_once_any_fuel [OF assms this] show ?thesis
    by (simp add: json_loads_def)
qed

subsection \<open>Comments that make the decoder raise\<close>

lemma utf8_decode_strict_ascii: "list_all (\<lambda>c. c < 0x80) s \<Longrightarrow> utf8_decode_strict s = Some s"
  by (induction s) (simp_all add: utf8_decode_one_def)

lemma bytes_decode_replicate:
  "b < 0x80 \<Longrightarrow> bytes_decode (replicate k b) = Inr (replicate k (unat b))"
proof -
  assume "b < 0x80"
  then have "unat b < 0x80" by (simp add: word_less_nat_alt)
  then have "list_all (\<lambda>c. c < 0x80) (replicate k (unat b))"
    by (simp add: list_all_iff)
  from utf8_decode_strict_ascii [OF this] show ?thesis
    by (simp add: bytes_decode_def)
qed

lemma skip_ws_bracket: "skip_ws (0x5B # t) = 0x5B # t"
  by (simp add: skip_ws_def is_ws_def)

lemma scan_once_deep:
  "2 * d + 3 \<le> n \<Longrightarrow> scan_once F n d (replicate (Suc d) 0x5B @ t) = Raise RecursionError"
proof (induction d arbitrary: n)
  case 0
  then obtain m where "n = Suc m" by (cases n) auto
  then show ?case by simp
next
  case (Suc d)
  then obtain m where n: "n = Suc (Suc m)" and m: "2 * d + 3 \<le> m"
    by (cases n; cases "n - 1") auto
  have "scan_once F m d (replicate (Suc d) 0x5B @ t) = Raise RecursionError"
    using Suc.IH [OF m] .
  then have "array_items F (Suc m) d (0x5B # replicate d 0x5B @ t) = Raise RecursionError"
    by (simp del: scan_once.simps)
  then show ?case unfolding n
    by (simp add: skip_ws_bracket del: array_items.simps)
qed

lemma json_loads_deep:
  assumes "recursion_budget F < k"
  shows "json_loads F (replicate k 0x5B) = Inl RecursionError"
proof -
  define d where "d = recursion_budget F"
  obtain j where k: "k = Suc d + j" using assms unfolding d_def
    by (metis Suc_leI le_Suc_ex)
  have s: "skip_ws (replicate k 0x5B) = replicate (Suc d) 0x5B @ replicate j 0x5B"
    unfolding k by (simp add: skip_ws_bracket replicate_add)
  have "scan_once F (2 * length (replicate k (0x5B::nat)) + 2) d (replicate (Suc d) 0x5B @ replicate j 0x5B)
      = Raise RecursionError"
    by (rule scan_once_deep) (simp add: k)
  then show ?thesis
    unfolding json_loads_def s d_def [symmetric] using k by (simp add: take_Suc_conv_app_nth)
qed


lemma match_number_ones:
  "match_number (0x31 # replicate k 0x31) = Some (0x31 # replicate k 0x31, [], [], [])"
proof -
  have "takeWhile is_digit (replicate k (0x31::nat)) = replicate k 0x31"
    by (simp add: is_digit_def takeWhile_eq_all_conv)
  moreover have "dropWhile is_digit (replicate k (0x31::nat)) = []"
    by (simp add: is_digit_def)
  ultimately show ?thesis
    by (simp add: match_number_def match_integer_def match_unsigned_def match_digits1_def
        match_frac_def match_exp_def is_digit_def)
qed

lemma json_loads_long:
  assumes "0 < max_str_digits F" and "max_str_digits F < k"
  shows "json_loads F (replicate k 0x31) = Inl ValueError"
proof -
  obtain j where k: "k = Suc j" using assms(2) by (cases k) auto
  have i: "int_of_literal F (0x31 # replicate j 0x31) = Inl ValueError"
    using assms by (simp add: int_of_literal_def digits_allowed_def ascii_def k)
  have "scan_once F (Suc 0) (recursion_budget F) (skip_ws (replicate k 0x31)) = Raise ValueError"
    unfolding k by (simp add: skip_ws_def is_ws_def match_number_ones i ascii_def)
  then show ?thesis
    by (simp add: json_loads_fuel [of F "Suc 0"] k)
qed

lemma decode_metadata_deep:
  assumes "recursion_budget F < k"
  shows "decode_metadata F (replicate k 0x5B) = Inl RecursionError"
proof -
  have "k \<noteq> 0" using assms by auto
  then show ?thesis
    using json_loads_deep [OF assms] by (simp add: decode_metadata_def bytes_decode_replicate)
qed

lemma decode_metadata_long:
  assumes "0 < max_str_digits F" and "max_str_digits F < k"
  shows "decode_metadata F (replicate k 0x31) = Inl ValueError"
proof -
  have "k \<noteq> 0" using assms by auto
  then show ?thesis
    using json_loads_long [OF assms] by (simp add: decode_metadata_def bytes_decode_replicate)
qed

subsection \<open>The encoder\<close>

lemma json_encode_errors:
  shows "json_encode F d v = Inl e \<longrightarrow> e = TypeError \<or> e = ValueError \<or> e = RecursionError"
    and "encode_items F d xs = Inl e \<longrightarrow> e = TypeError \<or> e = ValueError \<or> e = RecursionError"
    and "encode_pairs F d kvs = Inl e \<longrightarrow> e = TypeError \<or> e = ValueError \<or> e = RecursionError"
  by (induction F d v and F d xs and F d kvs rule: json_encode_encode_items_encode_pairs.induct)
     (auto simp: int_repr_def split: if_splits sum.splits)

lemma json_encode_unserializable:
  shows "\<not> serializable v \<longrightarrow> (\<exists>e. json_encode F d v = Inl e)"
    and "\<not> list_all serializable xs \<longrightarrow> (\<exists>e. encode_items F d xs = Inl e)"
    and "\<not> list_all (\<lambda>kv. serializable (snd kv)) kvs \<longrightarrow> (\<exists>e. encode_pairs F d kvs = Inl e)"
  by (induction F d v and F d xs and F d kvs rule: json_encode_encode_items_encode_pairs.induct)
     (auto split: if_splits sum.splits)

lemma json_encode_within:
  shows "within_limits F d v \<longrightarrow>
      json_encode F d v = (if serializable v then Inr (json_render F v) else Inl TypeError)"
    and "list_all (within_limits F d) xs \<longrightarrow>
      encode_items F d xs
        = (if list_all serializable xs then Inr (render_items F xs) else Inl TypeError)"
    and "list_all (\<lambda>kv. within_limits F d (snd kv)) kvs \<longrightarrow>
      encode_pairs F d kvs
        = (if list_all (\<lambda>kv. serializable (snd kv)) kvs then Inr (render_pairs F kvs)
           else Inl TypeError)"
  by (induction F d v and F d xs and F d kvs rule: json_encode_encode_items_encode_pairs.induct)
     (auto simp: int_repr_def split: if_splits sum.splits)





subsection \<open>The invariant of a handle\<close>

lemma lookup_last_append:
  "lookup_last (infos @ [z]) name =
     (if info_filename z = name then Some z else lookup_last infos name)"
  by (simp add: lookup_last_def)



lemma read_entry_inv:
  "NameToInfo zf = lookup_last (filelist zf) \<Longrightarrow>
   NameToInfo (read_entry zf x) = lookup_last (filelist (read_entry zf x))"
  by (auto simp: read_entry_def lookup_last_append fun_eq_iff)

lemma foldl_read_entry_inv:
  "NameToInfo zf = lookup_last (filelist zf) \<Longrightarrow>
   NameToInfo (foldl read_entry zf xs) = lookup_last (filelist (foldl read_entry zf xs))
   \<and> zip_mode (foldl read_entry zf xs) = zip_mode zf"
proof (induction xs arbitrary: zf)
  case Nil
  then show ?case by simp
next
  case (Cons x xs)
  from Cons.IH [OF read_entry_inv [OF Cons.prems]] show ?case
    by (simp add: read_entry_def)
qed

lemma ZipFile_init_inv:
  "ZipFile_init dk file m = Inr zf \<Longrightarrow>
   zip_mode zf = m \<and> NameToInfo zf = lookup_last (filelist zf)"
proof -
  assume a: "ZipFile_init dk file m = Inr zf"
  have e: "Map.empty = lookup_last []" by (simp add: lookup_last_def fun_eq_iff)
  show ?thesis
  proof (cases "m = ''w''")
    case True
    with a e show ?thesis by (auto simp: ZipFile_init_def)
  next
    case False
    with a obtain img :: ZipImage where zf: "zf = foldl read_entry
        \<lparr>zip_mode = m, fp = Some (member_records img), filelist = [],
         NameToInfo = Map.empty, zip_comment = end_comment img\<rparr> (central_directory img)"
      by (auto simp: ZipFile_init_def split: if_splits option.splits)
    show ?thesis unfolding zf
      using foldl_read_entry_inv [of "\<lparr>zip_mode = m, fp = Some (member_records img), filelist = [],
         NameToInfo = Map.empty, zip_comment = end_comment img\<rparr>" "central_directory img"] e
      by simp
  qed
qed

lemma ZipArchive_enter_inv: "ZipArchive_enter dk self = Inr self' \<Longrightarrow> handle_inv self'"
  by (auto simp: ZipArchive_enter_def handle_inv_def split: sum.splits dest: ZipFile_init_inv)

lemma ZipFile_writestr_inv:
  assumes "ZipFile_writestr zf zinfo data = Inr zf'"
    and "NameToInfo zf = lookup_last (filelist zf)"
  shows "NameToInfo zf' = lookup_last (filelist zf') \<and> zip_mode zf' = zip_mode zf"
  using assms
  by (auto simp: ZipFile_writestr_def Let_def lookup_last_append fun_eq_iff
      split: option.splits if_splits sum.splits)

lemma add_file_inv: "handle_inv self \<Longrightarrow> handle_inv (snd (add_file F fs self p md an))"
  by (auto simp: add_file_def handle_inv_def split: option.splits sum.splits if_splits
      dest: ZipFile_writestr_inv)

lemma set_archive_metadata_inv:
  "handle_inv self \<Longrightarrow> handle_inv (snd (set_archive_metadata F self md))"
  by (auto simp: set_archive_metadata_def handle_inv_def ZipFile_set_comment_def
      split: option.splits sum.splits)


lemma reader_handle_entered:
  "ZipArchive_enter example_disk \<lparr>filename = ascii ''old.zip'', mode = ''r'', archive = None\<rparr>
     = Inr reader_handle"
  by (simp add: ZipArchive_enter_def ZipFile_init_def example_disk_def reader_handle_def
      reader_zip_def doc_info_def read_entry_def)

lemma fresh_handle_entered:
  "ZipArchive_enter dk \<lparr>filename = ascii ''test.zip'', mode = ''w'', archive = None\<rparr>
     = Inr fresh_handle"
  by (simp add: ZipArchive_enter_def ZipFile_init_def fresh_handle_def fresh_zip_def)

lemma deep_reader_entered:
  "ZipArchive_enter
     [ascii ''deep.zip'' \<mapsto>
        \<lparr>central_directory = [deep_info],
         member_records = [(ascii ''doc.txt'', bytes_literal ''hello'')],
         end_comment = deep_comment\<rparr>]
     \<lparr>filename = ascii ''deep.zip'', mode = ''r'', archive = None\<rparr>
     = Inr deep_reader"
  by (simp add: ZipArchive_enter_def ZipFile_init_def deep_reader_def
      deep_zip_def deep_info_def read_entry_def)

subsection \<open>The running example, evaluated\<close>

lemma example_source:
  "example_fs (ascii ''dir1/test.txt'') = Some (RegularFile (bytes_literal ''content1'') 2024)"
  by (simp add: example_fs_def ascii_def)

lemma example_missing: "example_fs (ascii ''/no/such/file'') = None"
  by (simp add: example_fs_def ascii_def)

lemma example_name: "name_in_archive (ascii ''dir1/test.txt'') None = ascii ''test.txt''"
  by (simp add: name_in_archive_def os_path_basename_def ascii_def)

lemma example_from_file:
  "ZipInfo_from_file example_fs (ascii ''dir1/test.txt'') (ascii ''test.txt'')
     = Inr \<lparr>info_filename = ascii ''test.txt'', date_year = 2024, file_size = 8,
            compress_size = 0, info_comment = []\<rparr>"
  by (simp add: ZipInfo_from_file_def example_source)
     (simp add: ZipInfo_init_def os_path_normpath_def ascii_def bytes_literal_def)

lemma test_name_encoded: "utf8_encode (ascii ''test.txt'') = Inr (bytes_literal ''test.txt'')"
  by (simp add: ascii_def bytes_literal_def utf8_encode_char_def)

lemma eight: "Suc (Suc (Suc (Suc (Suc (Suc (Suc (Suc 0))))))) = 8"
  by simp

lemma example_plain_add:
  "add_file example_interp example_fs fresh_handle (ascii ''dir1/test.txt'') (PDict []) None
     = (Inr (), plain_added)"
  by (simp add: add_file_def fresh_handle_def fresh_zip_def os_path_exists_def example_source
      example_name example_from_file read_file_def ZipFile_writestr_def FileHeader_def
      test_name_encoded plain_added_def
      plain_zip_def test_info_def Let_def bytes_literal_def eight)

lemma example_falsy_add:
  "add_file example_interp example_fs fresh_handle (ascii ''dir1/test.txt'') (PObject False) None
     = (Inr (), plain_added)"
  by (simp add: add_file_def fresh_handle_def fresh_zip_def os_path_exists_def example_source
      example_name example_from_file read_file_def ZipFile_writestr_def FileHeader_def
      test_name_encoded plain_added_def
      plain_zip_def test_info_def Let_def bytes_literal_def eight)

subsection \<open>What a successful \<open>add_file\<close> does\<close>

lemma from_file_comment:
  "ZipInfo_from_file fs p name = Inr zinfo \<Longrightarrow> info_comment zinfo = []"
  by (auto simp: ZipInfo_from_file_def ZipInfo_init_def
      split: option.splits sum.splits fsnode.splits if_splits)

lemma add_file_success:
  assumes "add_file F fs self p md an = (Inr (), self')"
  obtains zf zinfo data y c where
    "archive self = Some zf" "mode self = ''w''" "fs p = Some (RegularFile data y)"
    "ZipInfo_from_file fs p (name_in_archive p an) = Inr zinfo"
    "if py_bool F md then encode_metadata F md = Inr c else c = []"
    "self' = self\<lparr>archive := Some (zf\<lparr>
        fp := Some (the (fp zf) @ [(info_filename zinfo, data)]),
        filelist := filelist zf @
          [zinfo\<lparr>info_comment := c, file_size := length data, compress_size := length data\<rparr>],
        NameToInfo := (NameToInfo zf)(info_filename zinfo \<mapsto>
          zinfo\<lparr>info_comment := c, file_size := length data, compress_size := length data\<rparr>)\<rparr>)\<rparr>"
proof -
  from assms obtain zf where zf: "archive self = Some zf" and m: "mode self = ''w''"
    by (auto simp: add_file_def split: option.splits if_splits)
  from assms zf m obtain zinfo where
    zi: "ZipInfo_from_file fs p (name_in_archive p an) = Inr zinfo"
    by (auto simp: add_file_def split: if_splits sum.splits)
  from assms zf m zi obtain c where
    c: "if py_bool F md then encode_metadata F md = Inr c else c = []"
    by (auto simp: add_file_def split: if_splits sum.splits)
  have zc: "zinfo\<lparr>info_comment := c\<rparr> = zinfo" if "\<not> py_bool F md"
    using that c from_file_comment [OF zi] by simp
  from assms zf m zi c zc obtain data where d: "read_file fs p = Inr data"
    by (auto simp: add_file_def split: if_splits sum.splits)
  then obtain y where fsd: "fs p = Some (RegularFile data y)"
    by (auto simp: read_file_def split: option.splits fsnode.splits)
  from assms zf m zi c zc d have
    "self' = self\<lparr>archive := Some (zf\<lparr>
        fp := Some (the (fp zf) @ [(info_filename zinfo, data)]),
        filelist := filelist zf @
          [zinfo\<lparr>info_comment := c, file_size := length data, compress_size := length data\<rparr>],
        NameToInfo := (NameToInfo zf)(info_filename zinfo \<mapsto>
          zinfo\<lparr>info_comment := c, file_size := length data, compress_size := length data\<rparr>)\<rparr>)\<rparr>"
    by (auto simp: add_file_def ZipFile_writestr_def Let_def split: if_splits sum.splits option.splits)
  with zf m fsd zi c show ?thesis by (rule that)
qed

lemma read_mode_rejects_writes:
  assumes "archive self = Some zf" and "mode self = ''r''"
  shows "add_file F fs self filepath metadata arcname = (Inl RuntimeError_write_mode, self)"
    and "set_archive_metadata F self metadata = (Inl RuntimeError_write_mode, self)"
  using assms by (simp_all add: add_file_def set_archive_metadata_def)

section \<open>The decoder reads back what the encoder wrote\<close>

subsection \<open>String literals\<close>

lemma hexval_hexdigit: "d < 16 \<Longrightarrow> hexval (hexdigit d) = Some d"
  by (auto simp: hexval_def hexdigit_def)

lemma hex_digits_value:
  fixes n :: nat
  assumes "n < 65536"
  shows "((n div 4096 mod 16 * 16 + n div 256 mod 16) * 16 + n div 16 mod 16) * 16 + n mod 16 = n"
proof -
  define q1 where "q1 = n div 16"
  define q2 where "q2 = q1 div 16"
  define q3 where "q3 = q2 div 16"
  have a: "n div 256 = q2"
    using div_mult2_eq [of n 16 16] by (simp add: q1_def q2_def)
  have b: "n div 4096 = q3"
    using div_mult2_eq [of n 256 16] a by (simp add: q3_def)
  have "q3 < 16" using assms unfolding b [symmetric] by simp
  then have c: "q3 mod 16 = q3" by simp
  have 1: "q3 * 16 + q2 mod 16 = q2" by (simp add: q3_def)
  have 2: "q2 * 16 + q1 mod 16 = q1" by (simp add: q2_def)
  have 3: "q1 * 16 + n mod 16 = n" by (simp add: q1_def)
  have "((q3 mod 16 * 16 + q2 mod 16) * 16 + q1 mod 16) * 16 + n mod 16 = n"
    unfolding c 1 2 3 ..
  then show ?thesis unfolding a b q1_def [symmetric] .
qed

lemma decode_hexdigits:
  "a < 16 \<Longrightarrow> b < 16 \<Longrightarrow> c < 16 \<Longrightarrow> d < 16 \<Longrightarrow>
   decode_uXXXX (hexdigit a # hexdigit b # hexdigit c # hexdigit d # r)
     = Some (((a * 16 + b) * 16 + c) * 16 + d)"
  by (simp add: hexval_hexdigit)

lemma decode_hex4: 
  assumes "n < 65536" shows "decode_uXXXX (hex4 n @ r) = Some n"
proof -
  have "decode_uXXXX (hex4 n @ r)
      = Some (((n div 4096 mod 16 * 16 + n div 256 mod 16) * 16 + n div 16 mod 16) * 16 + n mod 16)"
    unfolding hex4_def append_Cons append_Nil by (rule decode_hexdigits) simp_all
  then show ?thesis unfolding hex_digits_value [OF assms] .
qed


lemma length_hex4: "length (hex4 n) = 4"
  by (simp add: hex4_def)

lemma scanstring_pair:
  assumes "0xD800 \<le> h" "h \<le> 0xDBFF" "0xDC00 \<le> l" "l \<le> 0xDFFF"
  shows "scanstring (0x5C # 0x75 # hex4 h @ 0x5C # 0x75 # hex4 l @ r)
     = map_option (\<lambda>(str, r'). ((0x10000 + (h - 0xD800) * 1024 + (l - 0xDC00)) # str, r'))
         (scanstring r)"
proof -
  have d1: "decode_uXXXX (hex4 h @ t) = Some h" for t
    using assms by (intro decode_hex4) simp
  have d2: "decode_uXXXX (hex4 l @ t) = Some l" for t
    using assms by (intro decode_hex4) simp
  show ?thesis
    apply (subst scanstring.simps)
    using assms
    apply (simp add: d1 d2 length_hex4 ascii_def del: scanstring.simps)
    done
qed

lemma scanstring_escape_char:
  assumes "c < 0x110000" and "\<not> (0xD800 \<le> c \<and> c \<le> 0xDFFF)"
  shows "scanstring (escape_char c @ r) = map_option (\<lambda>(str, r'). (c # str, r')) (scanstring r)"
proof -
  consider (special) "c = 0x5C \<or> c = 0x22 \<or> c = 0x08 \<or> c = 0x0C \<or> c = 0x0A \<or> c = 0x0D \<or> c = 0x09"
    | (plain) "0x20 \<le> c" "c \<le> 0x7E" "c \<noteq> 0x5C" "c \<noteq> 0x22"
    | (bmp) "c < 0x20 \<or> 0x7E < c" "c < 0x10000" "c \<noteq> 0x08" "c \<noteq> 0x0C" "c \<noteq> 0x0A" "c \<noteq> 0x0D" "c \<noteq> 0x09"
    | (astral) "0x10000 \<le> c"
    by linarith
  then show ?thesis
  proof cases
    case special
    then show ?thesis
      by (auto simp: escape_char_def backslash_def ascii_def)
  next
    case plain
    then have e: "escape_char c = [c]"
      by (auto simp: escape_char_def)
    from plain show ?thesis unfolding e by simp
  next
    case bmp
    then have e: "escape_char c = 0x5C # 0x75 # hex4 c"
      by (auto simp: escape_char_def u_escape_def ascii_def)
    have "\<not> (0xD800 \<le> c \<and> c \<le> 0xDBFF)" using assms(2) by linarith
    then have nh: "(0xD800 \<le> c \<and> c \<le> 0xDBFF \<and> X) = False" for X by blast
    from bmp show ?thesis unfolding e
      by (simp add: decode_hex4 length_hex4 nh)
  next
    case astral
    define n where "n = c - 0x10000"
    have n: "n < 0x100000" "c = 0x10000 + n" using astral assms(1) by (simp_all add: n_def)
    define h where "h = 0xD800 + n div 1024"
    define l where "l = 0xDC00 + n mod 1024"
    have hi: "n div 1024 mod 1024 = n div 1024" using n(1) by simp
    have hl: "0xD800 \<le> h" "h \<le> 0xDBFF" "0xDC00 \<le> l" "l \<le> 0xDFFF"
      using n(1) by (simp_all add: h_def l_def)
    have e: "escape_char c = 0x5C # 0x75 # hex4 h @ 0x5C # 0x75 # hex4 l"
      using astral
      by (simp add: escape_char_def u_escape_def ascii_def Let_def n_def [symmetric] hi h_def l_def)
    have "n div 1024 * 1024 + n mod 1024 = n" by simp
    then have v: "0x10000 + (h - 0xD800) * 1024 + (l - 0xDC00) = c"
      unfolding n(2) h_def l_def by simp
    show ?thesis unfolding e using scanstring_pair [OF hl, of r] v
      by (simp del: scanstring.simps)
  qed
qed

lemma scanstring_escaped:
  "unicode_text s \<Longrightarrow> scanstring (concat (map escape_char s) @ 0x22 # r) = Some (s, r)"
proof (induction s)
  case Nil
  show ?case by simp
next
  case (Cons c s)
  then have "c < 0x110000" "\<not> (0xD800 \<le> c \<and> c \<le> 0xDFFF)" "unicode_text s"
    by (simp_all add: unicode_text_def)
  with Cons.IH show ?case
    by (simp add: scanstring_escape_char del: scanstring.simps)
qed

lemma scanstring_encoded:
  "unicode_text s \<Longrightarrow> scanstring (tl (encode_basestring_ascii s) @ r) = Some (s, r)"
  using scanstring_escaped [of s r] by (simp add: encode_basestring_ascii_def)

subsection \<open>Integers\<close>

lemma digits_value_snoc: "digits_value (ds @ [d]) = digits_value ds * 10 + (d - 0x30)"
  by (simp add: digits_value_def)

lemma digits_small: "n < 10 \<Longrightarrow> digits n = [0x30 + n]"
  by (subst digits.simps) simp

lemma digits_large: "\<not> n < 10 \<Longrightarrow> digits n = digits (n div 10) @ [0x30 + n mod 10]"
  by (subst digits.simps) simp

lemma digits_value_digits: "digits_value (digits n) = n"
proof (induction n rule: digits.induct)
  case (1 n)
  show ?case
  proof (cases "n < 10")
    case True
    then show ?thesis by (simp add: digits_small digits_value_def del: digits.simps)
  next
    case False
    with 1 show ?thesis
      by (simp add: digits_large digits_value_snoc del: digits.simps)
  qed
qed

lemma digits_shape:
  "\<exists>c cs. digits n = c # cs \<and> is_digit c \<and> list_all is_digit cs \<and> (c = 0x30 \<longrightarrow> n = 0 \<and> cs = [])"
proof (induction n rule: digits.induct)
  case (1 n)
  show ?case
  proof (cases "n < 10")
    case True
    then show ?thesis by (simp add: digits_small is_digit_def del: digits.simps)
  next
    case False
    with 1 obtain c cs where d: "digits (n div 10) = c # cs" "is_digit c" "list_all is_digit cs"
      "c = 0x30 \<longrightarrow> n div 10 = 0 \<and> cs = []" by blast
    from False have "n div 10 \<noteq> 0" by simp
    with d(4) have "c \<noteq> 0x30" by blast
    moreover have "is_digit (0x30 + n mod 10)" by (simp add: is_digit_def)
    ultimately show ?thesis using d False
      by (simp add: digits_large del: digits.simps)
  qed
qed

lemma digits_length_pos: "0 < length (digits n)"
  using digits_shape [of n] by auto

lemma nondigit_takeWhile:
  assumes "delimited r" shows "takeWhile is_digit r = []" and "dropWhile is_digit r = r"
  using assms by (cases r; auto simp: delimited_def is_digit_def)+

lemma match_unsigned_digits:
  assumes "delimited r"
  shows "match_unsigned (digits n @ r) = Some (digits n, r)"
proof -
  obtain c cs where d: "digits n = c # cs" "is_digit c" "list_all is_digit cs"
      "c = 0x30 \<longrightarrow> n = 0 \<and> cs = []" using digits_shape by blast
  have "\<forall>x\<in>set cs. is_digit x" using d(3) by (simp add: list_all_iff)
  then have "takeWhile is_digit (cs @ r) = cs" "dropWhile is_digit (cs @ r) = r"
    using nondigit_takeWhile [OF assms] by (simp_all add: takeWhile_append2 dropWhile_append2)
  then show ?thesis using d
    by (auto simp: match_unsigned_def match_digits1_def simp del: digits.simps)
qed

lemma match_integer_int_text:
  assumes "delimited r"
  shows "match_integer (int_text i @ r) = Some (int_text i, r)"
proof (cases "i < 0")
  case True
  then show ?thesis
    using match_unsigned_digits [OF assms, of "nat (- i)"]
    by (simp add: int_text_def match_integer_def del: digits.simps)
next
  case False
  obtain c cs where d: "digits (nat i) = c # cs" "is_digit c"
    using digits_shape by blast
  then have "c \<noteq> 0x2D" by (auto simp: is_digit_def)
  with False d show ?thesis
    using match_unsigned_digits [OF assms, of "nat i"]
    by (simp add: int_text_def match_integer_def del: digits.simps)
qed

lemma match_number_int_text:
  assumes "delimited r"
  shows "match_number (int_text i @ r) = Some (int_text i, [], [], r)"
proof -
  have "match_frac r = ([], r)" "match_exp r = ([], r)"
    using assms by (cases r; auto simp: delimited_def match_frac_def match_exp_def)+
  then show ?thesis
    by (simp add: match_number_def match_integer_int_text [OF assms])
qed

lemma int_of_literal_int_text:
  assumes "digits_allowed F (length (digits (nat \<bar>i\<bar>)))"
  shows "int_of_literal F (int_text i) = Inr i"
proof (cases "i < 0")
  case True
  then have "nat \<bar>i\<bar> = nat (- i)" by simp
  with True assms show ?thesis
    by (simp add: int_of_literal_def int_text_def ascii_def digits_value_digits del: digits.simps)
next
  case False
  obtain c cs where d: "digits (nat i) = c # cs" "is_digit c"
    using digits_shape by blast
  then have c: "c \<noteq> 0x2D" by (auto simp: is_digit_def)
  from False have "nat \<bar>i\<bar> = nat i" by simp
  with False assms c d(1) digits_value_digits [of "nat i"] show ?thesis
    by (simp add: int_of_literal_def int_text_def ascii_def del: digits.simps)
qed

lemma int_text_shape: "\<exists>c cs. int_text i = c # cs \<and> (is_digit c \<or> c = 0x2D)"
  using digits_shape [of "nat i"] by (auto simp: int_text_def simp del: digits.simps)

lemma scan_once_int:
  assumes "delimited r" and "digits_allowed F (length (digits (nat \<bar>i\<bar>)))"
  shows "scan_once F (Suc n) d (int_text i @ r) = Ok (PInt i) r"
proof -
  obtain c cs where s: "int_text i = c # cs" "is_digit c \<or> c = 0x2D"
    using int_text_shape by blast
  have m: "match_number (c # cs @ r) = Some (int_text i, [], [], r)"
    using match_number_int_text [OF assms(1), of i] s(1) by simp
  from s(2) have "c \<noteq> 0x22" "c \<noteq> of_char CHR ''{''" "c \<noteq> of_char CHR ''[''"
    "c \<noteq> of_char CHR ''n''" "c \<noteq> of_char CHR ''t''" "c \<noteq> of_char CHR ''f''"
    by (auto simp: is_digit_def)
  then show ?thesis
    unfolding s(1) using m int_of_literal_int_text [OF assms(2)]
    by (simp del: digits.simps)
qed

subsection \<open>Steps of the scanner on the text of the encoder\<close>

lemma array_items_mono:
  assumes "array_items F n d s \<noteq> OutOfFuel" "n \<le> m"
  shows "array_items F m d s = array_items F n d s"
proof -
  have "array_items F (n + k) d s = array_items F n d s" for k
  proof (induction k)
    case 0
    show ?case by simp
  next
    case (Suc k)
    with assms(1) show ?case using scan_stable [of F "n + k"] by simp
  qed
  from this [of "m - n"] assms(2) show ?thesis by simp
qed

lemma object_pairs_mono:
  assumes "object_pairs F n d s \<noteq> OutOfFuel" "n \<le> m"
  shows "object_pairs F m d s = object_pairs F n d s"
proof -
  have "object_pairs F (n + k) d s = object_pairs F n d s" for k
  proof (induction k)
    case 0
    show ?case by simp
  next
    case (Suc k)
    with assms(1) show ?case using scan_stable [of F "n + k"] by simp
  qed
  from this [of "m - n"] assms(2) show ?thesis by simp
qed

lemma skip_ws_id: "\<not> is_ws c \<Longrightarrow> skip_ws (c # s) = c # s"
  by (simp add: skip_ws_def)

lemma skip_ws_space: "skip_ws (0x20 # s) = skip_ws s"
  by (simp add: skip_ws_def is_ws_def)

lemma array_items_single:
  "scan_once F n d s = Ok v (0x5D # r) \<Longrightarrow> array_items F (Suc n) d s = Ok [v] r"
  by (simp add: skip_ws_def is_ws_def)

lemma array_items_cons:
  "scan_once F n d s = Ok v (0x2C # 0x20 # s') \<Longrightarrow> skip_ws s' = s' \<Longrightarrow>
   array_items F n d s' = Ok vs r \<Longrightarrow> array_items F (Suc n) d s = Ok (v # vs) r"
  by (simp add: skip_ws_id is_ws_def skip_ws_space)

lemma scan_once_list:
  "array_items F n d (c # s) = Ok vs r \<Longrightarrow> \<not> is_ws c \<Longrightarrow> c \<noteq> 0x5D \<Longrightarrow>
   scan_once F (Suc n) (Suc d) (0x5B # c # s) = Ok (PList vs) r"
  by (simp add: skip_ws_id)

lemma object_pairs_single:
  "scanstring s = Some (k, 0x3A # 0x20 # s1) \<Longrightarrow> skip_ws s1 = s1 \<Longrightarrow>
   scan_once F n d s1 = Ok v (0x7D # r) \<Longrightarrow> object_pairs F (Suc n) d s = Ok [(k, v)] r"
  by (simp add: skip_ws_id is_ws_def skip_ws_space)

lemma object_pairs_cons:
  "scanstring s = Some (k, 0x3A # 0x20 # s1) \<Longrightarrow> skip_ws s1 = s1 \<Longrightarrow>
   scan_once F n d s1 = Ok v (0x2C # 0x20 # 0x22 # s2) \<Longrightarrow>
   object_pairs F n d s2 = Ok ps r \<Longrightarrow> object_pairs F (Suc n) d s = Ok ((k, v) # ps) r"
  by (simp add: skip_ws_id is_ws_def skip_ws_space)

lemma scan_once_dict:
  "object_pairs F n d s = Ok ps r \<Longrightarrow>
   scan_once F (Suc n) (Suc d) (0x7B # 0x22 # s) = Ok (PDict (dict_of_pairs ps)) r"
  by (simp add: skip_ws_id is_ws_def)

lemma scan_once_empty_list: "scan_once F (Suc n) (Suc d) (0x5B # 0x5D # r) = Ok (PList []) r"
  by (simp add: skip_ws_id is_ws_def)

lemma scan_once_empty_dict: "scan_once F (Suc n) (Suc d) (0x7B # 0x7D # r) = Ok (PDict []) r"
  by (simp add: skip_ws_id is_ws_def)

lemma scan_once_string:
  "unicode_text s \<Longrightarrow> scan_once F (Suc n) d (encode_basestring_ascii s @ r) = Ok (PStr s) r"
  using scanstring_escaped [of s r] by (simp add: encode_basestring_ascii_def)

lemma scan_once_names:
  "scan_once F (Suc n) d (ascii ''null'' @ r) = Ok PNone r"
  "scan_once F (Suc n) d (ascii ''true'' @ r) = Ok (PBool True) r"
  "scan_once F (Suc n) d (ascii ''false'' @ r) = Ok (PBool False) r"
  by (simp_all add: ascii_def)

subsection \<open>Dictionaries with distinct keys\<close>

lemma dict_setitem_new: "k \<notin> fst ` set d \<Longrightarrow> dict_setitem d k v = d @ [(k, v)]"
  by (induction d) auto

lemma dict_of_pairs_distinct:
  assumes "distinct (map fst ps)" shows "dict_of_pairs ps = ps"
proof -
  have "distinct (map fst (acc @ ps)) \<Longrightarrow>
      foldl (\<lambda>d kv. dict_setitem d (fst kv) (snd kv)) acc ps = acc @ ps" for acc
  proof (induction ps arbitrary: acc)
    case Nil
    show ?case by simp
  next
    case (Cons p ps)
    from Cons.prems have "fst p \<notin> fst ` set acc" by auto
    then have "dict_setitem acc (fst p) (snd p) = acc @ [p]"
      by (simp add: dict_setitem_new)
    with Cons.IH [of "acc @ [p]"] Cons.prems show ?case by simp
  qed
  from this [of "[]"] assms show ?thesis by (simp add: dict_of_pairs_def)
qed

subsection \<open>The first character of the text of the encoder\<close>

lemma json_encode_head:
  assumes "json_value v" and "json_encode F d v = Inr t"
  shows "\<exists>c t'. t = c # t' \<and> \<not> is_ws c \<and> c \<noteq> 0x5D"
proof (cases v)
  case PNone
  with assms show ?thesis by (auto simp: ascii_def is_ws_def)
next
  case (PBool b)
  with assms show ?thesis by (auto simp: ascii_def is_ws_def)
next
  case (PInt i)
  obtain c cs where ic: "int_text i = c # cs" "is_digit c \<or> c = 0x2D"
    using int_text_shape by blast
  from PInt assms have "t = int_text i"
    by (auto simp: int_repr_def split: if_splits simp del: digits.simps)
  then have "t = c # cs" using ic(1) by simp
  with ic(2) show ?thesis by (auto simp: is_ws_def is_digit_def)
next
  case (PFloat x)
  with assms show ?thesis by simp
next
  case (PStr s)
  with assms show ?thesis by (auto simp: encode_basestring_ascii_def is_ws_def)
next
  case (PList xs)
  with assms show ?thesis
    by (cases d) (auto simp: ascii_def is_ws_def split: if_splits sum.splits)
next
  case (PDict kvs)
  with assms show ?thesis
    by (cases d) (auto simp: ascii_def is_ws_def split: if_splits sum.splits)
next
  case (PObject b)
  with assms show ?thesis by simp
qed

lemma encode_items_head:
  assumes "xs \<noteq> []" and "list_all json_value xs" and "encode_items F d xs = Inr t"
  shows "\<exists>c t'. t = c # t' \<and> \<not> is_ws c \<and> c \<noteq> 0x5D"
proof -
  from assms(1) obtain x ys where xs: "xs = x # ys" by (cases xs) auto
  show ?thesis
  proof (cases ys)
    case Nil
    with xs assms show ?thesis using json_encode_head [of x F d t] by simp
  next
    case (Cons y zs)
    with xs assms obtain tx ts where "json_encode F d x = Inr tx" "t = tx @ ascii '', '' @ ts"
      by (auto split: sum.splits)
    with xs assms(2) show ?thesis using json_encode_head [of x F d tx] by auto
  qed
qed

lemma encode_pairs_head:
  assumes "kvs \<noteq> []" and "encode_pairs F d kvs = Inr t"
  shows "\<exists>t'. t = 0x22 # t'"
proof -
  from assms(1) obtain k v ys where kvs: "kvs = (k, v) # ys" by (cases kvs) auto
  show ?thesis
  proof (cases ys)
    case Nil
    with kvs assms show ?thesis
      by (auto simp: encode_basestring_ascii_def split: sum.splits)
  next
    case (Cons y zs)
    with kvs assms show ?thesis
      by (auto simp: encode_basestring_ascii_def split: sum.splits)
  qed
qed

subsection \<open>The scanner reads back what the encoder wrote\<close>

lemma items_round_trip:
  assumes IH: "\<And>x t r. x \<in> set xs \<Longrightarrow> json_value x \<Longrightarrow> json_encode F d x = Inr t \<Longrightarrow>
      delimited r \<Longrightarrow> \<exists>n. scan_once F n d (t @ r) = Ok x r"
  shows "xs \<noteq> [] \<Longrightarrow> list_all json_value xs \<Longrightarrow> encode_items F d xs = Inr t \<Longrightarrow>
     \<exists>n. array_items F n d (t @ 0x5D # r) = Ok xs r"
  using IH
proof (induction xs arbitrary: t)
  case Nil
  then show ?case by simp
next
  case (Cons x ys)
  show ?case
  proof (cases ys)
    case Nil
    with Cons.prems have e: "json_encode F d x = Inr t" and v: "json_value x" by simp_all
    have "delimited (0x5D # r)" by (simp add: delimited_def)
    from Cons.prems(4) [OF _ v e this] obtain n where
      "scan_once F n d (t @ 0x5D # r) = Ok x (0x5D # r)" by auto
    then have "array_items F (Suc n) d (t @ 0x5D # r) = Ok [x] r"
      by (rule array_items_single)
    with Nil show ?thesis by blast
  next
    case (Cons y zs)
    with Cons.prems obtain tx ts where
      e: "json_encode F d x = Inr tx" "encode_items F d ys = Inr ts"
      and t: "t = tx @ 0x2C # 0x20 # ts"
      by (auto simp: ascii_def split: sum.splits)
    from Cons.prems have v: "json_value x" "list_all json_value ys" by simp_all
    have ne: "ys \<noteq> []" using Cons by simp
    have "delimited (0x2C # 0x20 # ts @ 0x5D # r)" by (simp add: delimited_def)
    from Cons.prems(4) [OF _ v(1) e(1) this] obtain n1 where
      n1: "scan_once F n1 d (tx @ 0x2C # 0x20 # ts @ 0x5D # r)
        = Ok x (0x2C # 0x20 # ts @ 0x5D # r)" by auto
    from Cons.IH [OF ne v(2) e(2)] Cons.prems(4) obtain n2 where
      n2: "array_items F n2 d (ts @ 0x5D # r) = Ok ys r" by auto
    obtain c t' where h: "ts = c # t'" "\<not> is_ws c"
      using encode_items_head [OF ne v(2) e(2)] by blast
    then have sk: "skip_ws (ts @ 0x5D # r) = ts @ 0x5D # r"
      by (simp add: skip_ws_id)
    define n where "n = max n1 n2"
    have m1: "scan_once F n d (tx @ 0x2C # 0x20 # ts @ 0x5D # r)
        = Ok x (0x2C # 0x20 # (ts @ 0x5D # r))"
      using scan_once_mono [of F n1 d _ n] n1 by (simp add: n_def)
    have m2: "array_items F n d (ts @ 0x5D # r) = Ok ys r"
      using array_items_mono [of F n2 d _ n] n2 by (simp add: n_def)
    have "array_items F (Suc n) d (tx @ 0x2C # 0x20 # ts @ 0x5D # r) = Ok (x # ys) r"
      using m1 sk m2 by (rule array_items_cons)
    then have "array_items F (Suc n) d (t @ 0x5D # r) = Ok (x # ys) r"
      by (simp add: t del: array_items.simps)
    then show ?thesis by blast
  qed
qed

lemma pairs_round_trip:
  assumes IH: "\<And>k x t r. (k, x) \<in> set kvs \<Longrightarrow> json_value x \<Longrightarrow> json_encode F d x = Inr t \<Longrightarrow>
      delimited r \<Longrightarrow> \<exists>n. scan_once F n d (t @ r) = Ok x r"
  shows "kvs \<noteq> [] \<Longrightarrow> list_all (\<lambda>kv. unicode_text (fst kv) \<and> json_value (snd kv)) kvs \<Longrightarrow>
     encode_pairs F d kvs = Inr t \<Longrightarrow>
     \<exists>n. object_pairs F n d (tl t @ 0x7D # r) = Ok kvs r"
  using IH
proof (induction kvs arbitrary: t)
  case Nil
  then show ?case by simp
next
  case (Cons kv ys)
  obtain k x where kv: "kv = (k, x)" by (cases kv)
  from Cons.prems kv have v: "unicode_text k" "json_value x"
    "list_all (\<lambda>kv. unicode_text (fst kv) \<and> json_value (snd kv)) ys" by simp_all
  have key: "scanstring (tl (encode_basestring_ascii k) @ s) = Some (k, s)" for s
    using v(1) by (rule scanstring_encoded)
  have tlk: "tl (encode_basestring_ascii k @ s) = tl (encode_basestring_ascii k) @ s" for s
    by (simp add: encode_basestring_ascii_def)
  show ?case
  proof (cases ys)
    case Nil
    with Cons.prems kv obtain tx where e: "json_encode F d x = Inr tx"
      and t: "t = encode_basestring_ascii k @ 0x3A # 0x20 # tx"
      by (auto simp: ascii_def split: sum.splits)
    have "delimited (0x7D # r)" by (simp add: delimited_def)
    from Cons.prems(4) [OF _ v(2) e this] kv obtain n where
      n: "scan_once F n d (tx @ 0x7D # r) = Ok x (0x7D # r)" by auto
    obtain c t' where "tx = c # t'" "\<not> is_ws c"
      using json_encode_head [OF v(2) e] by blast
    then have sk: "skip_ws (tx @ 0x7D # r) = tx @ 0x7D # r"
      by (simp add: skip_ws_id)
    have "object_pairs F (Suc n) d (tl (encode_basestring_ascii k) @ 0x3A # 0x20 # tx @ 0x7D # r)
        = Ok [(k, x)] r"
      using key sk n by (rule object_pairs_single)
    then have "object_pairs F (Suc n) d (tl t @ 0x7D # r) = Ok (kv # ys) r"
      by (simp add: t tlk Nil kv del: object_pairs.simps)
    then show ?thesis by blast
  next
    case (Cons y zs)
    with Cons.prems kv obtain tx ts where
      e: "json_encode F d x = Inr tx" "encode_pairs F d ys = Inr ts"
      and t: "t = encode_basestring_ascii k @ 0x3A # 0x20 # tx @ 0x2C # 0x20 # ts"
      by (auto simp: ascii_def split: sum.splits)
    have ne: "ys \<noteq> []" using Cons by simp
    obtain ts' where ts: "ts = 0x22 # ts'"
      using encode_pairs_head [OF ne e(2)] by blast
    have "delimited (0x2C # 0x20 # ts @ 0x7D # r)" by (simp add: delimited_def)
    from Cons.prems(4) [OF _ v(2) e(1) this] kv obtain n1 where
      n1: "scan_once F n1 d (tx @ 0x2C # 0x20 # ts @ 0x7D # r)
        = Ok x (0x2C # 0x20 # ts @ 0x7D # r)" by auto
    have "\<exists>n. object_pairs F n d (tl ts @ 0x7D # r) = Ok ys r"
    proof (rule Cons.IH [OF ne v(3) e(2)])
      fix k' x' t' r'
      assume "(k', x') \<in> set ys" "json_value x'" "json_encode F d x' = Inr t'" "delimited r'"
      then show "\<exists>n. scan_once F n d (t' @ r') = Ok x' r'"
        using Cons.prems(4) [of k' x' t' r'] by simp
    qed
    then obtain n2 where
      n2: "object_pairs F n2 d (tl ts @ 0x7D # r) = Ok ys r" by blast
    obtain c t' where "tx = c # t'" "\<not> is_ws c"
      using json_encode_head [OF v(2) e(1)] by blast
    then have sk: "skip_ws (tx @ 0x2C # 0x20 # ts @ 0x7D # r) = tx @ 0x2C # 0x20 # ts @ 0x7D # r"
      by (simp add: skip_ws_id)
    define n where "n = max n1 n2"
    have m1: "scan_once F n d (tx @ 0x2C # 0x20 # ts @ 0x7D # r)
        = Ok x (0x2C # 0x20 # 0x22 # (ts' @ 0x7D # r))"
      using scan_once_mono [of F n1 d _ n] n1 by (simp add: n_def ts)
    have m2: "object_pairs F n d (ts' @ 0x7D # r) = Ok ys r"
      using object_pairs_mono [of F n2 d _ n] n2 by (simp add: n_def ts)
    have "object_pairs F (Suc n) d
        (tl (encode_basestring_ascii k) @ 0x3A # 0x20 # tx @ 0x2C # 0x20 # ts @ 0x7D # r)
        = Ok ((k, x) # ys) r"
      using key sk m1 m2 by (rule object_pairs_cons)
    then have "object_pairs F (Suc n) d (tl t @ 0x7D # r) = Ok (kv # ys) r"
      by (simp add: t tlk kv del: object_pairs.simps)
    then show ?thesis by blast
  qed
qed

lemma scan_round_trip:
  "json_value v \<Longrightarrow> json_encode F d v = Inr t \<Longrightarrow> delimited r \<Longrightarrow>
   \<exists>n. scan_once F n d (t @ r) = Ok v r"
proof (induction v arbitrary: d t r)
  case PNone
  then have "scan_once F (Suc 0) d (t @ r) = Ok PNone r"
    using scan_once_names(1) [of F 0 d r] by auto
  then show ?case by blast
next
  case (PBool b)
  then have "scan_once F (Suc 0) d (t @ r) = Ok (PBool b) r"
    using scan_once_names(2,3) [of F 0 d r] by (cases b) auto
  then show ?case by blast
next
  case (PInt i)
  then have "digits_allowed F (length (digits (nat \<bar>i\<bar>)))" "t = int_text i"
    by (auto simp: int_repr_def split: if_splits simp del: digits.simps)
  with PInt.prems(3) have "scan_once F (Suc 0) d (t @ r) = Ok (PInt i) r"
    using scan_once_int [of r F i 0 d] by simp
  then show ?case by blast
next
  case (PFloat x)
  then show ?case by simp
next
  case (PStr s)
  then have "scan_once F (Suc 0) d (t @ r) = Ok (PStr s) r"
    using scan_once_string [of s F 0 d r] by auto
  then show ?case by blast
next
  case (PList xs)
  from PList.prems(2) obtain d' where d: "d = Suc d'" by (cases d) auto
  show ?case
  proof (cases "xs = []")
    case True
    with PList.prems d have "t = [0x5B, 0x5D]" by (simp add: ascii_def)
    then have "scan_once F (Suc 0) d (t @ r) = Ok (PList xs) r"
      using scan_once_empty_list [of F 0 d' r] True d by simp
    then show ?thesis by blast
  next
    case False
    with PList.prems d obtain ti where e: "encode_items F d' xs = Inr ti"
      and t: "t = 0x5B # ti @ [0x5D]"
      by (auto simp: ascii_def split: sum.splits)
    from PList.prems(1) have v: "list_all json_value xs" by simp
    have "\<exists>n. array_items F n d' (ti @ 0x5D # r) = Ok xs r"
      using PList.IH False v e by (intro items_round_trip) auto
    then obtain n where n: "array_items F n d' (ti @ 0x5D # r) = Ok xs r" by blast
    obtain c t' where h: "ti = c # t'" "\<not> is_ws c" "c \<noteq> 0x5D"
      using encode_items_head [OF False v e] by blast
    have "scan_once F (Suc n) (Suc d') (0x5B # c # (t' @ 0x5D # r)) = Ok (PList xs) r"
      using n h by (intro scan_once_list) auto
    then have "scan_once F (Suc n) d (t @ r) = Ok (PList xs) r"
      by (simp add: t d h(1) del: scan_once.simps)
    then show ?thesis by blast
  qed
next
  case (PDict kvs)
  from PDict.prems(2) obtain d' where d: "d = Suc d'" by (cases d) auto
  from PDict.prems(1) have dist: "distinct (map fst kvs)"
    and v: "list_all (\<lambda>kv. unicode_text (fst kv) \<and> json_value (snd kv)) kvs" by simp_all
  show ?case
  proof (cases "kvs = []")
    case True
    with PDict.prems d have "t = [0x7B, 0x7D]" by (simp add: ascii_def)
    then have "scan_once F (Suc 0) d (t @ r) = Ok (PDict kvs) r"
      using scan_once_empty_dict [of F 0 d' r] True d by simp
    then show ?thesis by blast
  next
    case False
    with PDict.prems d obtain ti where e: "encode_pairs F d' kvs = Inr ti"
      and t: "t = 0x7B # ti @ [0x7D]"
      by (auto simp: ascii_def split: sum.splits)
    have "\<exists>n. object_pairs F n d' (tl ti @ 0x7D # r) = Ok kvs r"
    proof (rule pairs_round_trip [OF _ False v e])
      fix k x t r
      assume "(k, x) \<in> set kvs" "json_value x" "json_encode F d' x = Inr t" "delimited r"
      then show "\<exists>n. scan_once F n d' (t @ r) = Ok x r"
        using PDict.IH [of "(k, x)" x d' t r] by simp
    qed
    then obtain n where n: "object_pairs F n d' (tl ti @ 0x7D # r) = Ok kvs r" by blast
    obtain t' where h: "ti = 0x22 # t'"
      using encode_pairs_head [OF False e] by blast
    have "scan_once F (Suc n) (Suc d') (0x7B # 0x22 # (t' @ 0x7D # r))
        = Ok (PDict (dict_of_pairs kvs)) r"
      using n h by (intro scan_once_dict) auto
    then have "scan_once F (Suc n) d (t @ r) = Ok (PDict kvs) r"
      using dict_of_pairs_distinct [OF dist] by (simp add: t d h del: scan_once.simps)
    then show ?thesis by blast
  qed
next
  case (PObject b)
  then show ?case by simp
qed

subsection \<open>The text of the encoder is ASCII\<close>

lemma hexdigit_ascii: "d < 16 \<Longrightarrow> hexdigit d < 0x80"
  by (simp add: hexdigit_def)

lemma u_escape_ascii: "list_all (\<lambda>x. x < 0x80) (u_escape n)"
  by (simp add: u_escape_def hex4_def ascii_def hexdigit_ascii)

lemma escape_char_ascii: "list_all (\<lambda>x. x < 0x80) (escape_char c)"
  by (simp add: escape_char_def u_escape_ascii ascii_def Let_def)

lemma encode_basestring_ascii_ascii: "list_all (\<lambda>x. x < 0x80) (encode_basestring_ascii s)"
  by (induction s) (simp_all add: encode_basestring_ascii_def escape_char_ascii)

lemma int_text_ascii: "list_all (\<lambda>x. x < 0x80) (int_text i)"
proof -
  have "list_all (\<lambda>x. x < 0x80) (digits n)" for n
  proof -
    have "list_all is_digit (digits n)"
      using digits_shape [of n] by (auto simp del: digits.simps)
    then show ?thesis
      by (rule list.pred_mono_strong) (simp add: is_digit_def)
  qed
  then show ?thesis by (simp add: int_text_def del: digits.simps)
qed

lemma json_encode_ascii:
  shows "json_value v \<longrightarrow> (\<forall>t. json_encode F d v = Inr t \<longrightarrow> list_all (\<lambda>x. x < 0x80) t)"
    and "list_all json_value xs \<longrightarrow>
           (\<forall>t. encode_items F d xs = Inr t \<longrightarrow> list_all (\<lambda>x. x < 0x80) t)"
    and "list_all (\<lambda>kv. unicode_text (fst kv) \<and> json_value (snd kv)) kvs \<longrightarrow>
           (\<forall>t. encode_pairs F d kvs = Inr t \<longrightarrow> list_all (\<lambda>x. x < 0x80) t)"
  by (induction F d v and F d xs and F d kvs rule: json_encode_encode_items_encode_pairs.induct)
     (auto simp: int_repr_def int_text_ascii encode_basestring_ascii_ascii ascii_def
       split: if_splits sum.splits simp del: digits.simps)

subsection \<open>ASCII text as bytes\<close>

lemma utf8_encode_ascii:
  "list_all (\<lambda>x. x < 0x80) t \<Longrightarrow> utf8_encode t = Inr (map of_nat t)"
  by (induction t) (simp_all add: utf8_encode_char_def)

lemma bytes_decode_ascii:
  assumes "list_all (\<lambda>x. x < 0x80) t"
  shows "bytes_decode (map of_nat t) = Inr t"
proof -
  have "map unat (map of_nat t :: 8 word list) = t"
    using assms by (induction t) (simp_all add: unat_of_nat)
  then show ?thesis
    using utf8_decode_strict_ascii [OF assms] by (simp add: bytes_decode_def)
qed

subsection \<open>Decoding what was encoded\<close>

lemma json_loads_dumps:
  assumes "json_value v" and "json_dumps F v = Inr t"
  shows "json_loads F t = Inr v"
proof -
  from assms(2) have e: "json_encode F (recursion_budget F) v = Inr t"
    by (simp add: json_dumps_def)
  obtain c t' where h: "t = c # t'" "\<not> is_ws c"
    using json_encode_head [OF assms(1) e] by blast
  have "list_all (\<lambda>x. x < 0x80) t"
    using json_encode_ascii(1) assms(1) e by blast
  with h have bom: "take 1 t \<noteq> [0xFEFF]" by auto
  have sk: "skip_ws t = t" using h by (simp add: skip_ws_id)
  have "delimited []" by (simp add: delimited_def)
  from scan_round_trip [OF assms(1) e this] obtain n where
    n: "scan_once F n (recursion_budget F) t = Ok v []" by auto
  then have "scan_once F n (recursion_budget F) (skip_ws t) \<noteq> OutOfFuel"
    by (simp add: sk)
  moreover have "skip_ws [] = []" by (simp add: skip_ws_def)
  ultimately show ?thesis
    using json_loads_fuel [of F n t] n bom by (simp add: sk)
qed

lemma decode_encoded:
  assumes "json_value v" and "encode_metadata F v = Inr b"
  shows "decode_metadata F b = Inr v"
proof -
  from assms(2) obtain t where t: "json_dumps F v = Inr t" and b: "utf8_encode t = Inr b"
    by (auto simp: encode_metadata_def split: sum.splits)
  have a: "list_all (\<lambda>x. x < 0x80) t"
    using json_encode_ascii(1) assms(1) t by (auto simp: json_dumps_def)
  with b have b': "b = map of_nat t" by (simp add: utf8_encode_ascii)
  obtain c t' where "t = c # t'"
    using json_encode_head [OF assms(1), of F "recursion_budget F" t] t
    by (auto simp: json_dumps_def)
  then have "b \<noteq> []" using b' by simp
  then show ?thesis
    using bytes_decode_ascii [OF a] json_loads_dumps [OF assms(1) t]
    by (simp add: decode_metadata_def b')
qed

lemma encode_within_limits:
  assumes "json_value v" and "within_limits F (recursion_budget F) v"
  shows "encode_metadata F v = Inr (map of_nat (json_render F v))"
proof -
  have s: "serializable v" if "json_value v" for v :: "'a pyval"
    using that by (induction v) (auto simp: list_all_iff)
  have e: "json_encode F (recursion_budget F) v = Inr (json_render F v)"
    using json_encode_within(1) [of F "recursion_budget F" v] assms s by simp
  then have "list_all (\<lambda>x. x < 0x80) (json_render F v)"
    using json_encode_ascii(1) assms(1) by blast
  with e show ?thesis
    by (simp add: encode_metadata_def json_dumps_def utf8_encode_ascii)
qed

lemma source_dir1_value:
  "json_value source_dir1"
  "within_limits example_interp (recursion_budget example_interp) source_dir1"
  by (simp_all add: source_dir1_def unicode_text_def ascii_def example_interp_def)

lemma source_dir2_value:
  "json_value source_dir2"
  "within_limits example_interp (recursion_budget example_interp) source_dir2"
  by (simp_all add: source_dir2_def unicode_text_def ascii_def example_interp_def)

lemma example_encode: "encode_metadata example_interp source_dir1 = Inr dir1_comment"
  using encode_within_limits [OF source_dir1_value]
  by (simp add: source_dir1_def encode_basestring_ascii_def escape_char_def ascii_def
      dir1_comment_def bytes_literal_def)



lemma example_source2:
  "example_fs (ascii ''dir2/test.txt'') = Some (RegularFile (bytes_literal ''second'') 2024)"
  by (simp add: example_fs_def ascii_def)

lemma example_from_file2:
  "ZipInfo_from_file example_fs (ascii ''dir2/test.txt'') (ascii ''test.txt'')
     = Inr \<lparr>info_filename = ascii ''test.txt'', date_year = 2024, file_size = 6,
            compress_size = 0, info_comment = []\<rparr>"
  by (simp add: ZipInfo_from_file_def example_source2)
     (simp add: ZipInfo_init_def os_path_normpath_def ascii_def bytes_literal_def)

lemma example_arcname: "name_in_archive p (Some (ascii ''test.txt'')) = ascii ''test.txt''"
  by (simp add: name_in_archive_def ascii_def)

lemma example_lengths:
  "length (bytes_literal ''content1'') = 8" "length (bytes_literal ''second'') = 6"
  "length (bytes_literal ''test.txt'') = 8"
  by (simp_all add: bytes_literal_def)

lemma first_added_eq:
  "add_file example_interp example_fs fresh_handle (ascii ''dir1/test.txt'') source_dir1
       (Some (ascii ''test.txt''))
     = (Inr (),
        \<lparr>filename = ascii ''test.zip'', mode = ''w'',
         archive = Some
           \<lparr>zip_mode = ''w'', fp = Some [(ascii ''test.txt'', bytes_literal ''content1'')],
            filelist = [test_info\<lparr>info_comment := dir1_comment\<rparr>],
            NameToInfo = [ascii ''test.txt'' \<mapsto> test_info\<lparr>info_comment := dir1_comment\<rparr>],
            zip_comment = []\<rparr>\<rparr>)"
  by (simp add: add_file_def fresh_handle_def fresh_zip_def os_path_exists_def example_source
      example_arcname example_from_file read_file_def ZipFile_writestr_def FileHeader_def
      test_name_encoded test_info_def Let_def example_encode example_lengths)
     (simp add: source_dir1_def)

lemma first_added_handle:
  "first_added =
     \<lparr>filename = ascii ''test.zip'', mode = ''w'',
      archive = Some
        \<lparr>zip_mode = ''w'', fp = Some [(ascii ''test.txt'', bytes_literal ''content1'')],
         filelist = [test_info\<lparr>info_comment := dir1_comment\<rparr>],
         NameToInfo = [ascii ''test.txt'' \<mapsto> test_info\<lparr>info_comment := dir1_comment\<rparr>],
         zip_comment = []\<rparr>\<rparr>"
  by (simp add: first_added_def first_added_eq)

lemma second_added_eq:
  "\<exists>c. encode_metadata example_interp source_dir2 = Inr c \<and>
     add_file example_interp example_fs first_added (ascii ''dir2/test.txt'') source_dir2
       (Some (ascii ''test.txt''))
     = (Inr (),
        \<lparr>filename = ascii ''test.zip'', mode = ''w'',
         archive = Some
           \<lparr>zip_mode = ''w'',
            fp = Some [(ascii ''test.txt'', bytes_literal ''content1''),
                       (ascii ''test.txt'', bytes_literal ''second'')],
            filelist = [test_info\<lparr>info_comment := dir1_comment\<rparr>,
                        test_info\<lparr>info_comment := c, file_size := 6, compress_size := 6\<rparr>],
            NameToInfo = [ascii ''test.txt'' \<mapsto>
                        test_info\<lparr>info_comment := c, file_size := 6, compress_size := 6\<rparr>],
            zip_comment = []\<rparr>\<rparr>)"
proof -
  define c :: bytes where "c = map of_nat (json_render example_interp source_dir2)"
  have e: "encode_metadata example_interp source_dir2 = Inr c"
    unfolding c_def by (rule encode_within_limits [OF source_dir2_value])
  have "add_file example_interp example_fs first_added (ascii ''dir2/test.txt'') source_dir2
       (Some (ascii ''test.txt''))
     = (Inr (),
        \<lparr>filename = ascii ''test.zip'', mode = ''w'',
         archive = Some
           \<lparr>zip_mode = ''w'',
            fp = Some [(ascii ''test.txt'', bytes_literal ''content1''),
                       (ascii ''test.txt'', bytes_literal ''second'')],
            filelist = [test_info\<lparr>info_comment := dir1_comment\<rparr>,
                        test_info\<lparr>info_comment := c, file_size := 6, compress_size := 6\<rparr>],
            NameToInfo = [ascii ''test.txt'' \<mapsto>
                        test_info\<lparr>info_comment := c, file_size := 6, compress_size := 6\<rparr>],
            zip_comment = []\<rparr>\<rparr>)"
    by (simp add: add_file_def first_added_handle os_path_exists_def example_source2
        example_arcname example_from_file2 read_file_def ZipFile_writestr_def FileHeader_def
        test_name_encoded test_info_def Let_def e example_lengths)
       (simp add: source_dir2_def)
  with e show ?thesis by blast
qed

section \<open>The claims\<close>

text \<open>
  C1. The claim is that after two entries were added under one name the listing shows one
  entry of that name, the second. The handle that has added \<^verbatim>\<open>dir1/test.txt\<close> and then
  \<^verbatim>\<open>dir2/test.txt\<close>, both as \<^verbatim>\<open>test.txt\<close>, lists two entries named \<^verbatim>\<open>test.txt\<close>: the first
  file with its size and metadata, then the second. Only the lookup by name,
  \<open>get_file_metadata\<close>, answers with the second.
\<close>
theorem duplicate_names_are_both_listed:
  "fst (add_file example_interp example_fs fresh_handle (ascii ''dir1/test.txt'') source_dir1
          (Some (ascii ''test.txt''))) = Inr () \<and>
   fst (add_file example_interp example_fs first_added (ascii ''dir2/test.txt'') source_dir2
          (Some (ascii ''test.txt''))) = Inr () \<and>
   list_contents example_interp second_added
     = Inr [PDict [(ascii ''filename'', PStr (ascii ''test.txt'')),
                   (ascii ''size'', PInt 8), (ascii ''compressed_size'', PInt 8),
                   (ascii ''metadata'', source_dir1)],
            PDict [(ascii ''filename'', PStr (ascii ''test.txt'')),
                   (ascii ''size'', PInt 6), (ascii ''compressed_size'', PInt 6),
                   (ascii ''metadata'', source_dir2)]] \<and>
   get_file_metadata example_interp second_added (ascii ''test.txt'') = Inr source_dir2"
proof -
  obtain c where e: "encode_metadata example_interp source_dir2 = Inr c"
    and a: "add_file example_interp example_fs first_added (ascii ''dir2/test.txt'') source_dir2
       (Some (ascii ''test.txt''))
     = (Inr (),
        \<lparr>filename = ascii ''test.zip'', mode = ''w'',
         archive = Some
           \<lparr>zip_mode = ''w'',
            fp = Some [(ascii ''test.txt'', bytes_literal ''content1''),
                       (ascii ''test.txt'', bytes_literal ''second'')],
            filelist = [test_info\<lparr>info_comment := dir1_comment\<rparr>,
                        test_info\<lparr>info_comment := c, file_size := 6, compress_size := 6\<rparr>],
            NameToInfo = [ascii ''test.txt'' \<mapsto>
                        test_info\<lparr>info_comment := c, file_size := 6, compress_size := 6\<rparr>],
            zip_comment = []\<rparr>\<rparr>)"
    using second_added_eq by blast
  have d1: "decode_metadata example_interp dir1_comment = Inr source_dir1"
    using source_dir1_value(1) example_encode by (rule decode_encoded)
  have d2: "decode_metadata example_interp c = Inr source_dir2"
    using source_dir2_value(1) e by (rule decode_encoded)
  have b: "os_path_basename (ascii ''test.txt'') = ascii ''test.txt''"
    by (simp add: os_path_basename_def ascii_def)
  have "list_contents example_interp second_added
     = Inr [PDict [(ascii ''filename'', PStr (ascii ''test.txt'')),
                   (ascii ''size'', PInt 8), (ascii ''compressed_size'', PInt 8),
                   (ascii ''metadata'', source_dir1)],
            PDict [(ascii ''filename'', PStr (ascii ''test.txt'')),
                   (ascii ''size'', PInt 6), (ascii ''compressed_size'', PInt 6),
                   (ascii ''metadata'', source_dir2)]]"
    by (simp add: second_added_def a list_contents_def d1 d2 contents_item_def test_info_def)
  moreover have "get_file_metadata example_interp second_added (ascii ''test.txt'')
      = Inr source_dir2"
    by (simp add: second_added_def a get_file_metadata_def ZipFile_getinfo_def b d2)
  ultimately show ?thesis
    by (simp add: first_added_eq a)
qed




text \<open>
  C3. The decoder is not total: a comment of a thousand opening brackets makes it raise
  \<^verbatim>\<open>RecursionError\<close> and a comment of 4301 digits \<^verbatim>\<open>ValueError\<close>, neither of which its
  \<^verbatim>\<open>except\<close> clause catches.
\<close>
theorem decode_metadata_raises:
  "decode_metadata example_interp deep_comment = Inl RecursionError \<and>
   decode_metadata example_interp long_number = Inl ValueError"
proof
  show "decode_metadata example_interp deep_comment = Inl RecursionError"
    unfolding deep_comment_def by (rule decode_metadata_deep) (simp add: example_interp_def)
  show "decode_metadata example_interp long_number = Inl ValueError"
    unfolding long_number_def by (rule decode_metadata_long) (simp_all add: example_interp_def)
qed

text \<open>
  C8. Decoding the empty byte string returns the empty mapping.
\<close>
theorem decode_empty_comment: "decode_metadata F [] = Inr (PDict [])"
  by (simp add: decode_metadata_def)

text \<open>
  C5. On an open handle in write mode, \<open>add_file\<close> with a source path that does not
  exist raises \<^verbatim>\<open>FileNotFoundError\<close>, and the handle after the call is the handle before
  it: nothing was added.
\<close>
theorem add_file_missing_source:
  assumes "archive self = Some zf" and "mode self = ''w''" and "fs filepath = None"
  shows "add_file F fs self filepath metadata arcname = (Inl FileNotFoundError, self)"
  using assms by (simp add: add_file_def os_path_exists_def)

theorem add_file_missing_source_witness:
  "archive fresh_handle = Some fresh_zip \<and> mode fresh_handle = ''w'' \<and>
   example_fs (ascii ''/no/such/file'') = None \<and>
   add_file example_interp example_fs fresh_handle (ascii ''/no/such/file'') source_dir1 None
     = (Inl FileNotFoundError, fresh_handle)"
proof -
  have 1: "archive fresh_handle = Some fresh_zip" and 2: "mode fresh_handle = ''w''"
    by (simp_all add: fresh_handle_def)
  from add_file_missing_source
      [where self = fresh_handle and zf = fresh_zip and fs = example_fs
         and filepath = "ascii ''/no/such/file''" and F = example_interp
         and metadata = source_dir1 and arcname = None]
    1 2 example_missing show ?thesis by simp
qed

text \<open>
  C10. The mode is tested before the source path: on an open handle in read mode a
  missing source path gives the write mode error, not \<^verbatim>\<open>FileNotFoundError\<close>.
\<close>
theorem mode_check_precedes_source_check:
  assumes "archive self = Some zf" and "mode self = ''r''" and "fs filepath = None"
  shows "fst (add_file F fs self filepath metadata arcname) = Inl RuntimeError_write_mode \<and>
         fst (add_file F fs self filepath metadata arcname) \<noteq> Inl FileNotFoundError"
  using assms by (simp add: add_file_def)

theorem mode_check_precedes_source_check_witness:
  "archive reader_handle = Some reader_zip \<and> mode reader_handle = ''r'' \<and>
   example_fs (ascii ''/no/such/file'') = None \<and>
   fst (add_file example_interp example_fs reader_handle (ascii ''/no/such/file'') source_dir1 None)
     = Inl RuntimeError_write_mode"
proof -
  have 1: "archive reader_handle = Some reader_zip" and 2: "mode reader_handle = ''r''"
    by (simp_all add: reader_handle_def)
  from mode_check_precedes_source_check
      [where self = reader_handle and zf = reader_zip and fs = example_fs
         and filepath = "ascii ''/no/such/file''" and F = example_interp
         and metadata = source_dir1 and arcname = None]
    1 2 example_missing show ?thesis by simp
qed

text \<open>
  C9. \<open>add_file\<close> tests the metadata for truth, so the empty dictionary behaves as no
  metadata at all: the two calls have the same result and the same handle afterwards, and
  when the call succeeds the entry it appended has an empty comment, which decodes to the
  empty mapping.
\<close>
theorem empty_metadata_stores_no_comment:
  "add_file F fs self filepath (PDict []) arcname = add_file F fs self filepath PNone arcname \<and>
   (\<forall>self' zf'.
      add_file F fs self filepath (PDict []) arcname = (Inr (), self') \<and> archive self' = Some zf'
      \<longrightarrow> (\<exists>zf z. archive self = Some zf \<and> filelist zf' = filelist zf @ [z] \<and>
                  info_comment z = [] \<and>
                  decode_metadata F (info_comment z) = Inr (PDict [])))"
proof (intro conjI allI impI)
  show "add_file F fs self filepath (PDict []) arcname = add_file F fs self filepath PNone arcname"
    by (simp add: add_file_def cong: option.case_cong sum.case_cong if_cong)
next
  fix self' zf'
  assume a: "add_file F fs self filepath (PDict []) arcname = (Inr (), self') \<and>
    archive self' = Some zf'"
  then have "add_file F fs self filepath (PDict []) arcname = (Inr (), self')" by simp
  then show "\<exists>zf z. archive self = Some zf \<and> filelist zf' = filelist zf @ [z] \<and>
                  info_comment z = [] \<and> decode_metadata F (info_comment z) = Inr (PDict [])"
  proof (rule add_file_success)
    fix zf zinfo data y c
    assume "archive self = Some zf"
      and "if py_bool F (PDict []) then encode_metadata F (PDict []) = Inr c else c = []"
      and "self' = self\<lparr>archive := Some (zf\<lparr>
        fp := Some (the (fp zf) @ [(info_filename zinfo, data)]),
        filelist := filelist zf @
          [zinfo\<lparr>info_comment := c, file_size := length data, compress_size := length data\<rparr>],
        NameToInfo := (NameToInfo zf)(info_filename zinfo \<mapsto>
          zinfo\<lparr>info_comment := c, file_size := length data, compress_size := length data\<rparr>)\<rparr>)\<rparr>"
    with a show ?thesis by (auto simp: decode_metadata_def)
  qed
qed

theorem empty_metadata_stores_no_comment_witness:
  "add_file example_interp example_fs fresh_handle (ascii ''dir1/test.txt'') (PDict []) None
     = (Inr (), plain_added) \<and>
   add_file example_interp example_fs fresh_handle (ascii ''dir1/test.txt'') PNone None
     = (Inr (), plain_added) \<and>
   archive plain_added = Some plain_zip \<and> archive fresh_handle = Some fresh_zip \<and>
   filelist plain_zip = filelist fresh_zip @ [test_info] \<and> info_comment test_info = [] \<and>
   decode_metadata example_interp (info_comment test_info) = Inr (PDict [])"
proof -
  have 1: "archive plain_added = Some plain_zip"
    by (simp add: plain_added_def)
  have 2: "archive fresh_handle = Some fresh_zip"
    by (simp add: fresh_handle_def)
  have 3: "filelist plain_zip = filelist fresh_zip @ [test_info]"
    by (simp add: plain_zip_def fresh_zip_def)
  have 4: "info_comment test_info = []"
    by (simp add: test_info_def)
  from empty_metadata_stores_no_comment
      [where F = example_interp and fs = example_fs and self = fresh_handle
         and filepath = "ascii ''dir1/test.txt''" and arcname = None]
    example_plain_add 1 2 3 4
  show ?thesis by (simp add: decode_metadata_def)
qed



text \<open>
  C4. The claim is that \<open>get_archive_metadata\<close>, \<open>get_file_metadata\<close> for an existing entry
  and \<open>list_contents\<close> succeed on a handle of either mode. On the read-only handle of an
  archive whose comment and whose entry's comment are a thousand opening brackets, each of
  the three raises \<^verbatim>\<open>RecursionError\<close>: the decoder lets it through.
\<close>
theorem getters_raise:
  "mode deep_reader = ''r'' \<and> handle_inv deep_reader \<and>
   deep_info \<in> set (filelist deep_zip) \<and>
   info_filename deep_info = os_path_basename (ascii ''doc.txt'') \<and>
   get_archive_metadata example_interp deep_reader = Inl RecursionError \<and>
   get_file_metadata example_interp deep_reader (ascii ''doc.txt'') = Inl RecursionError \<and>
   list_contents example_interp deep_reader = Inl RecursionError"
proof -
  have d: "decode_metadata example_interp deep_comment = Inl RecursionError"
    unfolding deep_comment_def by (rule decode_metadata_deep) (simp add: example_interp_def)
  have b: "os_path_basename (ascii ''doc.txt'') = ascii ''doc.txt''"
    by (simp add: os_path_basename_def ascii_def)
  have "handle_inv deep_reader"
    by (auto simp: handle_inv_def deep_reader_def deep_zip_def deep_info_def lookup_last_def
        fun_eq_iff)
  moreover have "get_archive_metadata example_interp deep_reader = Inl RecursionError"
    by (simp add: get_archive_metadata_def deep_reader_def deep_zip_def d)
  moreover have "get_file_metadata example_interp deep_reader (ascii ''doc.txt'')
      = Inl RecursionError"
    by (simp add: get_file_metadata_def deep_reader_def deep_zip_def ZipFile_getinfo_def b
        deep_info_def d)
  moreover have "list_contents example_interp deep_reader = Inl RecursionError"
    by (simp add: list_contents_def deep_reader_def deep_zip_def deep_info_def d)
  ultimately show ?thesis
    by (simp add: deep_reader_def deep_zip_def b) (simp add: deep_info_def)
qed

text \<open>
  C6, as claimed: metadata that holds a value without JSON form makes \<open>add_file\<close> fail
  and add no entry. It fails for \<^verbatim>\<open>set()\<close>: an empty set has no JSON form, but it is false,
  so \<open>add_file\<close> never encodes it, and the entry is added without a comment.
\<close>
theorem falsy_object_is_added:
  "\<not> serializable (PObject False :: unit pyval) \<and>
   add_file example_interp example_fs fresh_handle (ascii ''dir1/test.txt'') (PObject False) None
     = (Inr (), plain_added) \<and>
   archive plain_added = Some plain_zip \<and> filelist plain_zip = [test_info]"
  by (simp add: example_falsy_add) (simp add: plain_added_def plain_zip_def)

text \<open>
  C6, amended. On an open handle in write mode, with a source that exists and an archive
  name and time stamp that \<^verbatim>\<open>ZipInfo.from_file\<close> accepts, metadata that is true and holds an
  object without JSON form makes \<open>add_file\<close> raise the exception of the encoder, and the
  handle is unchanged: no entry was added. The exception is \<^verbatim>\<open>TypeError\<close> when the value
  is within the limits of the interpreter; beyond them the encoder may meet an integer of
  too many digits (\<^verbatim>\<open>ValueError\<close>) or use up the recursion limit (\<^verbatim>\<open>RecursionError\<close>) before
  it meets the object.
\<close>
theorem add_file_unserializable:
  assumes "archive self = Some zf" and "mode self = ''w''" and "fs filepath \<noteq> None"
    and "ZipInfo_from_file fs filepath (name_in_archive filepath arcname) = Inr zinfo"
    and "py_bool F metadata" and "\<not> serializable metadata"
  shows "\<exists>e. add_file F fs self filepath metadata arcname = (Inl e, self) \<and>
             (e = TypeError \<or> e = ValueError \<or> e = RecursionError) \<and>
             (within_limits F (recursion_budget F) metadata \<longrightarrow> e = TypeError)"
proof -
  from assms(6) obtain e where e: "json_encode F (recursion_budget F) metadata = Inl e"
    using json_encode_unserializable(1) by blast
  then have k: "e = TypeError \<or> e = ValueError \<or> e = RecursionError"
    using json_encode_errors(1) by blast
  have w: "e = TypeError" if "within_limits F (recursion_budget F) metadata"
    using that e assms(6) json_encode_within(1) [of F "recursion_budget F" metadata] by simp
  have "add_file F fs self filepath metadata arcname = (Inl e, self)"
    using assms e
    by (simp add: add_file_def os_path_exists_def encode_metadata_def json_dumps_def)
  with k w show ?thesis by blast
qed

theorem add_file_unserializable_witness:
  "archive fresh_handle = Some fresh_zip \<and> mode fresh_handle = ''w'' \<and>
   example_fs (ascii ''dir1/test.txt'') \<noteq> None \<and>
   ZipInfo_from_file example_fs (ascii ''dir1/test.txt'')
       (name_in_archive (ascii ''dir1/test.txt'') None)
     = Inr \<lparr>info_filename = ascii ''test.txt'', date_year = 2024, file_size = 8,
            compress_size = 0, info_comment = []\<rparr> \<and>
   py_bool example_interp (PDict [(ascii ''key'', PObject True)]) \<and>
   \<not> serializable (PDict [(ascii ''key'', PObject True)] :: unit pyval) \<and>
   within_limits example_interp (recursion_budget example_interp)
     (PDict [(ascii ''key'', PObject True)]) \<and>
   add_file example_interp example_fs fresh_handle (ascii ''dir1/test.txt'')
       (PDict [(ascii ''key'', PObject True)]) None
     = (Inl TypeError, fresh_handle)"
proof -
  have 1: "archive fresh_handle = Some fresh_zip" and 2: "mode fresh_handle = ''w''"
    by (simp_all add: fresh_handle_def)
  have 3: "example_fs (ascii ''dir1/test.txt'') \<noteq> None"
    by (simp add: example_source)
  have 4: "ZipInfo_from_file example_fs (ascii ''dir1/test.txt'')
       (name_in_archive (ascii ''dir1/test.txt'') None)
     = Inr \<lparr>info_filename = ascii ''test.txt'', date_year = 2024, file_size = 8,
            compress_size = 0, info_comment = []\<rparr>"
    by (simp add: example_name example_from_file)
  have 5: "py_bool example_interp (PDict [(ascii ''key'', PObject True)])"
    and 6: "\<not> serializable (PDict [(ascii ''key'', PObject True)] :: unit pyval)"
    by simp_all
  have 7: "within_limits example_interp (recursion_budget example_interp)
     (PDict [(ascii ''key'', PObject True)])"
    by (simp add: example_interp_def)
  from add_file_unserializable
      [where self = fresh_handle and zf = fresh_zip and fs = example_fs
         and filepath = "ascii ''dir1/test.txt''" and arcname = None
         and metadata = "PDict [(ascii ''key'', PObject True)]" and F = example_interp,
       OF 1 2 3 4 5 6]
    1 2 3 4 5 6 7 show ?thesis by auto
qed

end
